theory Spec2Isabelle
  imports Main
begin

section \<open>The smash interpreter (src/main.cpp) as a shallow embedding\<close>

text \<open>
  The interpreter reads one line of standard input at a time, splits it into at most
  \<open>MAX_PARAMS\<close> space-separated parameters held in a fixed array of C strings, and
  dispatches on the first one. The embedding keeps the source's names. Standard input
  is the list of characters not yet read, standard output the list of characters
  printed so far; the file system and the process primitives are fields of a record
  \<open>world\<close>, and every call of a system primitive is appended to a trace.
\<close>

subsection \<open>Constants (lines 34-41)\<close>

definition MAX_PARAMS :: nat where
  "MAX_PARAMS = 4"

definition MAX_PARAM_LENGTH :: nat where
  "MAX_PARAM_LENGTH = 100"

abbreviation (input) NUL :: char where
  "NUL \<equiv> CHR 0x00"

abbreviation (input) NL :: char where
  "NL \<equiv> CHR 0x0A"

abbreviation (input) TAB :: char where
  "TAB \<equiv> CHR 0x09"

abbreviation (input) SP :: char where
  "SP \<equiv> CHR 0x20"

abbreviation (input) DQ :: char where
  "DQ \<equiv> CHR 0x22"

definition PROMPT :: string where
  "PROMPT = ''user@smash $ ''"

definition PROGRAM_VERSION :: string where
  "PROGRAM_VERSION = ''1.0''"

subsection \<open>The parameter array\<close>

text \<open>
  \<open>char** a\<close>: a list of rows, each row a list of characters. \<open>main\<close> (lines
  126-129) allocates \<open>MAX_PARAMS\<close> rows of \<open>MAX_PARAM_LENGTH + 1\<close> characters.
  A write \<open>a[i][j] = v\<close> outside the rows allocated is undefined behaviour in C++;
  here it is the value \<open>None\<close>.
\<close>

type_synonym buffer = "char list list"

definition allocated :: "buffer \<Rightarrow> bool" where
  "allocated a \<longleftrightarrow>
     length a = MAX_PARAMS \<and> (\<forall>row \<in> set a. length row = MAX_PARAM_LENGTH + 1)"

definition store :: "buffer \<Rightarrow> nat \<Rightarrow> nat \<Rightarrow> char \<Rightarrow> buffer option" where
  "store a i j v =
     (if i < length a \<and> j < length (a ! i) then Some (a[i := (a ! i)[j := v]]) else None)"

text \<open>A row read as a C string: the characters before the first null.\<close>

definition cstr :: "char list \<Rightarrow> string" where
  "cstr row = takeWhile (\<lambda>c. c \<noteq> NUL) row"

subsection \<open>Standard input and output\<close>

text \<open>
  \<open>cin.get()\<close> returns the next character; at the end of input it returns EOF (-1),
  which the assignment to \<open>char curRead\<close> turns into the byte 0xFF, and the stream
  stays at its end.
\<close>

fun cin_get :: "string \<Rightarrow> char \<times> string" where
  "cin_get [] = (CHR 0xFF, [])"
| "cin_get (c # cs) = (c, cs)"

text \<open>\<open>clearInput\<close> (lines 334-338): drop everything up to and including a newline.\<close>

definition clearInput :: "string \<Rightarrow> string" where
  "clearInput inp = drop 1 (dropWhile (\<lambda>c. c \<noteq> NL) inp)"

text \<open>\<open>tolower\<close> in the "C" locale: only the letters A to Z change.\<close>

definition tolower :: "char \<Rightarrow> char" where
  "tolower c =
     (let n = (of_char c :: nat) in if 65 \<le> n \<and> n \<le> 90 then char_of (n + 32) else c)"

text \<open>\<open>cout << n\<close> for an \<open>int\<close>: decimal digits, a minus sign when negative.\<close>

fun digits :: "nat \<Rightarrow> string" where
  "digits n =
     (if n < 10 then [char_of (48 + n)] else digits (n div 10) @ [char_of (48 + n mod 10)])"

declare digits.simps [simp del]

definition show_int :: "int \<Rightarrow> string" where
  "show_int i = (if i < 0 then CHR ''-'' # digits (nat (- i)) else digits (nat i))"

text \<open>
  \<open>cin >> userInput\<close> for a \<open>std::string\<close>: skip leading white space, then take
  characters up to the next white space (which stays in the stream) or the end of input.
\<close>

definition isspace :: "char \<Rightarrow> bool" where
  "isspace c \<longleftrightarrow> c = SP \<or> (9 \<le> (of_char c :: nat) \<and> (of_char c :: nat) \<le> 13)"

definition cin_word :: "string \<Rightarrow> string \<times> string" where
  "cin_word inp =
     (let s = dropWhile isspace inp
      in (takeWhile (\<lambda>c. \<not> isspace c) s, dropWhile (\<lambda>c. \<not> isspace c) s))"

subsection \<open>The tokenizer: \<open>parse\<close> (lines 273-332)\<close>

text \<open>The clearing loops of lines 276-280: \<open>a[i][j] = 0\<close> for \<open>j < MAX_PARAM_LENGTH\<close>.\<close>

definition clear_row :: "buffer \<Rightarrow> nat \<Rightarrow> buffer option" where
  "clear_row a i =
     fold (\<lambda>j acc. case acc of None \<Rightarrow> None | Some b \<Rightarrow> store b i j NUL)
       [0..<MAX_PARAM_LENGTH] (Some a)"

definition clear_rows :: "buffer \<Rightarrow> buffer option" where
  "clear_rows a =
     fold (\<lambda>i acc. case acc of None \<Rightarrow> None | Some b \<Rightarrow> clear_row b i)
       [0..<MAX_PARAMS] (Some a)"

text \<open>The diagnostic of line 319.\<close>

definition too_long_msg :: "nat \<Rightarrow> string" where
  "too_long_msg paramCount =
     ''Parameter '' @ show_int (int paramCount) @ '' exceeds maximum allowed characters: ''
       @ show_int (int MAX_PARAM_LENGTH) @ ''.'' @ [NL]"

text \<open>
  The reading loop of lines 289-331, one call per character read. The result is the
  array, \<open>len\<close>, the input left unread and the text printed; \<open>None\<close> is a write out
  of bounds.
\<close>

function parse_loop ::
  "buffer \<Rightarrow> nat \<Rightarrow> nat \<Rightarrow> int \<Rightarrow> string \<Rightarrow> (buffer \<times> int \<times> string \<times> string) option" where
  "parse_loop a paramCount charCount len inp =
     (case cin_get inp of (curRead, inp1) \<Rightarrow>
        if curRead \<noteq> NL then
          if curRead = SP then
            if charCount > 0 then
              (case store a paramCount charCount NUL of
                 None \<Rightarrow> None
               | Some a1 \<Rightarrow>
                   if paramCount + 1 \<ge> MAX_PARAMS
                   then Some (a1, len + 1, clearInput inp1, [])
                   else parse_loop a1 (paramCount + 1) 0 (len + 1) inp1)
            else parse_loop a paramCount charCount len inp1
          else
            (case store a paramCount charCount
                    (if paramCount = 0 then tolower curRead else curRead) of
               None \<Rightarrow> None
             | Some a1 \<Rightarrow>
                 if charCount + 1 > MAX_PARAM_LENGTH
                 then Some (a1, - 1, clearInput inp1, too_long_msg paramCount)
                 else parse_loop a1 paramCount (charCount + 1) len inp1)
        else if charCount > 0 then
          (case store a paramCount charCount NUL of
             None \<Rightarrow> None
           | Some a1 \<Rightarrow> Some (a1, len + 1, inp1, []))
        else Some (a, len, inp1, []))"
  by pat_completeness auto

termination
proof (relation "measures [\<lambda>(a, p, c, n, inp). length inp,
                           \<lambda>(a, p, c, n, inp). MAX_PARAM_LENGTH + 1 - c]", goal_cases)
  case 1
  show ?case by simp
next
  case (2 a p c n inp x y z)
  then show ?case by (cases inp) auto
next
  case (3 a p c n inp x y)
  then show ?case by (cases inp) auto
next
  case (4 a p c n inp x y z)
  then show ?case by (cases inp) auto
qed

declare parse_loop.simps [simp del]

subsection \<open>The world outside the process\<close>

datatype event =
    Lookup string
  | OpenRead string
  | OpenWrite string
  | ReadByte string
  | WriteByte string char
  | OpenDir string
  | Stat string
  | Fork
  | Wait
  | Execl string
  | Exit

text \<open>
  \<open>files\<close> gives the bytes of every path that opens for reading (\<open>ifstream\<close> is
  \<open>good()\<close> after \<open>open\<close>), \<open>creatable\<close> tells whether \<open>ofstream::open\<close> succeeds,
  \<open>dirs\<close> gives the entries of every path \<open>opendir\<close> opens, \<open>stat_ok\<close> tells whether
  \<open>stat\<close> returns 0, \<open>fork_ret\<close> is what \<open>fork\<close> returns and \<open>execl_ok\<close> tells
  whether \<open>execl\<close> replaces the image. Files are keyed by the path string: two
  different strings are taken to name different files.
\<close>

record world =
  stdin :: string
  stdout :: string
  files :: "string \<Rightarrow> string option"
  creatable :: "string \<Rightarrow> bool"
  dirs :: "string \<Rightarrow> string list option"
  stat_ok :: "string \<Rightarrow> bool"
  fork_ret :: int
  execl_ok :: "string \<Rightarrow> bool"
  trace :: "event list"

definition cout :: "string \<Rightarrow> world \<Rightarrow> world" where
  "cout s w = w\<lparr>stdout := stdout w @ s\<rparr>"

definition emit :: "event \<Rightarrow> world \<Rightarrow> world" where
  "emit e w = w\<lparr>trace := trace w @ [e]\<rparr>"

text \<open>\<open>parse\<close> on the world: clear the array, then run the reading loop on \<open>cin\<close>.\<close>

definition parse :: "buffer \<Rightarrow> world \<Rightarrow> (buffer \<times> int \<times> world) option" where
  "parse a w =
     (case clear_rows a of
        None \<Rightarrow> None
      | Some a0 \<Rightarrow>
          (case parse_loop a0 0 0 0 (stdin w) of
             None \<Rightarrow> None
           | Some (a1, len, rest, out) \<Rightarrow> Some (a1, len, cout out (w\<lparr>stdin := rest\<rparr>))))"

subsection \<open>Helper functions (lines 349-393)\<close>

text \<open>\<open>createInStream\<close>: the flag returned, the bytes the stream will deliver, the world.\<close>

definition createInStream :: "string \<Rightarrow> world \<Rightarrow> bool \<times> string \<times> world" where
  "createInStream fileName w =
     (let w1 = emit (OpenRead fileName) w in
      case files w1 fileName of
        None \<Rightarrow>
          (False, [],
           cout (''Cannot continue requested operation.'' @ [NL])
             (cout (''File '' @ [DQ] @ fileName @ [DQ]
                      @ '' doesn't exist or has invalid permissions.'' @ [NL]) w1))
      | Some bytes \<Rightarrow> (True, bytes, w1))"

definition validateOutFile :: "string \<Rightarrow> world \<Rightarrow> bool \<times> world" where
  "validateOutFile fileName w =
     (let w1 = emit (OpenRead fileName) w in
      case files w1 fileName of
        Some bytes \<Rightarrow>
          (let w2 = cout (''Do you wish to continue (y/n)? '')
                      (cout (''If you continue, this file will be overwritten.'' @ [NL])
                        (cout (''File '' @ [DQ] @ fileName @ [DQ] @ '' already exists.'' @ [NL])
                           w1));
               (userInput, rest) = cin_word (stdin w2);
               w3 = w2\<lparr>stdin := clearInput rest\<rparr>
           in if userInput \<noteq> ''y''
              then (False, cout (''Operation aborted.'' @ [NL]) w3)
              else (True, w3))
      | None \<Rightarrow> (True, w1))"

definition createOutStream :: "string \<Rightarrow> world \<Rightarrow> bool \<times> world" where
  "createOutStream fileName w =
     (let w1 = emit (OpenWrite fileName) w in
      if creatable w1 fileName
      then (True, w1\<lparr>files := (files w1)(fileName \<mapsto> [])\<rparr>)
      else (False,
            cout (''Cannot continue requested operation.'' @ [NL])
              (cout (''Unknown error creating output file'' @ [DQ] @ fileName @ [DQ]
                       @ ''.'' @ [NL]) w1)))"

definition fileExists :: "string \<Rightarrow> world \<Rightarrow> bool \<times> world" where
  "fileExists fileName w = (stat_ok w fileName, emit (Stat fileName) w)"

subsection \<open>Command functions (lines 158-267)\<close>

text \<open>
  A command returns to the main loop (\<open>Running\<close>), ends the process (\<open>Exited\<close>, from
  \<open>exit\<close>) or is replaced by another program (\<open>Replaced\<close>, from a successful
  \<open>execl\<close>).
\<close>

datatype status = Running | Exited | Replaced

type_synonym command = "buffer \<Rightarrow> int \<Rightarrow> world \<Rightarrow> status \<times> world"

definition help_cmd :: command where
  "help_cmd a len w =
     (Running,
      cout ([TAB] @ ''Note: All commands are case insensitive (arguments are not).'' @ [NL])
     (cout ([TAB] @ ''quit'' @ [NL, NL])
     (cout ([TAB] @ ''help'' @ [NL])
     (cout ([TAB] @ ''copy <old-filename> <new-filename>'' @ [NL])
     (cout ([TAB] @ ''list <directory>'' @ [NL])
     (cout ([TAB] @ ''list'' @ [NL])
     (cout ([TAB] @ ''run <executable-file>'' @ [NL])
     (cout ([TAB] @ ''The following is a list of valid commands:'' @ [NL, NL])
     (cout ([TAB] @ ''Welcome to smash v'' @ PROGRAM_VERSION @ ''!'' @ [NL, NL]) w)))))))))"

definition quit_cmd :: command where
  "quit_cmd a len w = (Exited, emit Exit (cout (''Thanks for choosing smash!'' @ [NL]) w))"

text \<open>
  The copying loop of lines 203-205: one \<open>get\<close> and one \<open>put\<close> per byte. The
  bytes are those the source held when \<open>createInStream\<close> opened it. This is what the
  program reads as long as source and destination are different files; where two
  different strings name one file, \<open>ofstream::open\<close> has emptied it before the first
  \<open>get\<close>, which this model of files keyed by their path does not show.
\<close>

fun copy_bytes :: "string \<Rightarrow> string \<Rightarrow> string \<Rightarrow> world \<Rightarrow> world" where
  "copy_bytes src dst [] w = emit (ReadByte src) w"
| "copy_bytes src dst (c # cs) w =
     copy_bytes src dst cs
       (let w1 = emit (WriteByte dst c) (emit (ReadByte src) w)
        in w1\<lparr>files := (files w1)(dst \<mapsto> (case files w1 dst of None \<Rightarrow> [c] | Some old \<Rightarrow> old @ [c]))\<rparr>)"

definition copy_cmd :: command where
  "copy_cmd a len w =
     (if len \<noteq> 3
      then (Running,
            cout (''Usage: copy <old-filename> <new-filename>'' @ [NL])
              (cout (''Invalid number of arguments.'' @ [NL]) w))
      else if cstr (a ! 1) = cstr (a ! 2)
      then (Running, cout (''Cannot copy same file!'' @ [NL]) w)
      else
        (case createInStream (cstr (a ! 1)) w of
           (ok1, bytes, w1) \<Rightarrow>
             if \<not> ok1 then (Running, w1)
             else
               (case validateOutFile (cstr (a ! 2)) w1 of
                  (ok2, w2) \<Rightarrow>
                    if \<not> ok2 then (Running, w2)
                    else
                      (case createOutStream (cstr (a ! 2)) w2 of
                         (ok3, w3) \<Rightarrow>
                           if \<not> ok3 then (Running, w3)
                           else (Running, copy_bytes (cstr (a ! 1)) (cstr (a ! 2)) bytes w3)))))"

definition list_cmd :: command where
  "list_cmd a len w =
     (if len > 2
      then (Running,
            cout (''Usage: list [<directory>]'' @ [NL]) (cout (''Too many arguments.'' @ [NL]) w))
      else
        (let path = (if len = 2 then cstr (a ! 1) else ''./'');
             w1 = emit (OpenDir path) w
         in case dirs w1 path of
              Some entries \<Rightarrow> (Running, cout (concat (map (\<lambda>d_name. d_name @ [NL]) entries)) w1)
            | None \<Rightarrow> (Running, cout (''Unable to open the directory.'' @ [NL]) w1)))"

definition run_cmd :: command where
  "run_cmd a len w =
     (if len \<noteq> 2
      then (Running,
            cout (''Usage: run <executable-file>'' @ [NL])
              (cout (''Invalid number of arguments.'' @ [NL]) w))
      else
        (case fileExists (cstr (a ! 1)) w of
           (found, w1) \<Rightarrow>
             if \<not> found
             then (Running,
                   cout (''Unable to find executable file '' @ [DQ] @ cstr (a ! 1) @ [DQ]
                           @ ''.'' @ [NL]) w1)
             else
               (let p = fork_ret w1; w2 = emit Fork w1 in
                if p = - 1 then (Running, cout (''Fork failed.'' @ [NL]) w2)
                else if p \<noteq> 0 then (Running, emit Wait w2)
                else
                  (let w3 = emit (Execl (cstr (a ! 1))) w2
                   in if execl_ok w3 (cstr (a ! 1)) then (Replaced, w3) else (Running, w3)))))"

subsection \<open>The command table and the main loop (lines 122-154, 340-347)\<close>

definition initMap :: "string \<Rightarrow> command option" where
  "initMap =
     ((((Map.empty(''help'' \<mapsto> help_cmd))(''quit'' \<mapsto> quit_cmd))(''copy'' \<mapsto> copy_cmd))
        (''list'' \<mapsto> list_cmd))(''run'' \<mapsto> run_cmd)"

definition cmdFunctions :: "string \<Rightarrow> command option" where
  "cmdFunctions = initMap"

text \<open>
  One turn of the \<open>while (true)\<close> loop of \<open>main\<close>: the prompt, \<open>parse\<close>, and, unless
  \<open>aLength\<close> is -1, the lookup of \<open>a[0]\<close> and the call of the command found.
\<close>

definition main_iter :: "buffer \<Rightarrow> world \<Rightarrow> (buffer \<times> status \<times> world) option" where
  "main_iter a w =
     (case parse a (cout PROMPT w) of
        None \<Rightarrow> None
      | Some (a1, aLength, w1) \<Rightarrow>
          if aLength = - 1 then Some (a1, Running, w1)
          else
            (let w2 = emit (Lookup (cstr (a1 ! 0))) w1 in
             case cmdFunctions (cstr (a1 ! 0)) of
               Some f \<Rightarrow> (case f a1 aLength w2 of (st, w3) \<Rightarrow> Some (a1, st, w3))
             | None \<Rightarrow>
                 Some (a1, Running,
                       cout (''Type '' @ [DQ] @ ''help'' @ [DQ] @ '' to view a list of valid commands.'' @ [NL])
                         (cout (''Unrecognized command: '' @ [DQ] @ cstr (a1 ! 0) @ [DQ] @ ''.'' @ [NL])
                            w2))))"

subsection \<open>The tokenizer as the specification describes it\<close>

text \<open>
  Section 4.1 of the specification: the tokens of a line are its maximal runs of
  characters other than the space. \<open>tokens_of\<close> splits a line (without its newline)
  that way; it is the reference the reading loop is compared with.
\<close>

function tokens_of :: "string \<Rightarrow> string list" where
  "tokens_of [] = []"
| "tokens_of (c # cs) =
     (if c = SP then tokens_of cs
      else (c # takeWhile (\<lambda>x. x \<noteq> SP) cs) # tokens_of (dropWhile (\<lambda>x. x \<noteq> SP) cs))"
  by pat_completeness auto

termination
  by (relation "measure length") (auto simp: less_Suc_eq_le length_dropWhile_le)

text \<open>What is kept of a token in slot \<open>p\<close>: the command name (slot 0) in lower case.\<close>

definition stored :: "nat \<Rightarrow> string \<Rightarrow> string" where
  "stored p t = (if p = 0 then map tolower t else t)"

text \<open>Row \<open>p\<close> with the characters \<open>cs\<close> written from index \<open>c\<close> on.\<close>

definition write_run :: "buffer \<Rightarrow> nat \<Rightarrow> nat \<Rightarrow> char list \<Rightarrow> buffer" where
  "write_run a p c cs = a[p := take c (a ! p) @ cs @ drop (c + length cs) (a ! p)]"

text \<open>
  The tokens taken one by one: a token longer than \<open>MAX_PARAM_LENGTH\<close> ends the line
  with count -1 and the diagnostic, after its first \<open>MAX_PARAM_LENGTH + 1\<close> characters
  were written; any other token is written with its terminating null, and the line ends
  once \<open>MAX_PARAMS\<close> slots are filled.
\<close>

fun fill :: "buffer \<Rightarrow> nat \<Rightarrow> int \<Rightarrow> string list \<Rightarrow> string \<Rightarrow> (buffer \<times> int \<times> string \<times> string) option" where
  "fill a p n [] rest = Some (a, n, rest, [])"
| "fill a p n (t # ts) rest =
     (if length t > MAX_PARAM_LENGTH
      then Some (write_run a p 0 (take (MAX_PARAM_LENGTH + 1) (stored p t)), - 1, rest, too_long_msg p)
      else if p + 1 \<ge> MAX_PARAMS
      then Some (write_run a p 0 (stored p t @ [NUL]), n + 1, rest, [])
      else fill (write_run a p 0 (stored p t @ [NUL])) (p + 1) (n + 1) ts rest)"

text \<open>The array after the clearing loops: the first \<open>MAX_PARAM_LENGTH\<close> characters of each row null.\<close>

definition cleared :: "buffer \<Rightarrow> buffer" where
  "cleared a =
     fold (\<lambda>i b. write_run b i 0 (replicate MAX_PARAM_LENGTH NUL)) [0..<MAX_PARAMS] a"

text \<open>
  A line that holds the tokens \<open>ts\<close>: \<open>lead\<close> spaces, the tokens with one space and
  \<open>gaps\<close> more between neighbours, \<open>trail\<close> spaces. A token is a non-empty string
  without a space or a newline.
\<close>

fun spaced :: "string list \<Rightarrow> nat list \<Rightarrow> string" where
  "spaced [] gs = []"
| "spaced [t] gs = t"
| "spaced (t # t' # ts) gs =
     t @ replicate (Suc (case gs of [] \<Rightarrow> 0 | g # _ \<Rightarrow> g)) SP @ spaced (t' # ts) (tl gs)"

definition line_of :: "nat \<Rightarrow> nat list \<Rightarrow> nat \<Rightarrow> string list \<Rightarrow> string" where
  "line_of lead gs trail ts = replicate lead SP @ spaced ts gs @ replicate trail SP"

definition is_token :: "string \<Rightarrow> bool" where
  "is_token t \<longleftrightarrow> t \<noteq> [] \<and> SP \<notin> set t \<and> NL \<notin> set t"

subsection \<open>Texts and sample data used below\<close>

text \<open>The three lines \<open>validateOutFile\<close> prints before it reads the answer.\<close>

definition confirm_text :: "string \<Rightarrow> string" where
  "confirm_text fileName =
     ''File '' @ [DQ] @ fileName @ [DQ] @ '' already exists.'' @ [NL]
       @ ''If you continue, this file will be overwritten.'' @ [NL]
       @ ''Do you wish to continue (y/n)? ''"

text \<open>A row of the array holding a given C string, the rest of the row null.\<close>

definition row_of :: "string \<Rightarrow> char list" where
  "row_of s = s @ replicate (MAX_PARAM_LENGTH + 1 - length s) NUL"

text \<open>
  A sample world: two readable files, every path creatable, no directory, and
  \<open>fork\<close> returning the child's process id 7 to the parent.
\<close>

definition world0 :: world where
  "world0 = \<lparr>stdin = [], stdout = [],
     files = (Map.empty(''a.txt'' \<mapsto> ''hello''))(''b.txt'' \<mapsto> ''old''),
     creatable = (\<lambda>p. True), dirs = Map.empty, stat_ok = (\<lambda>p. p = ''a.txt'' \<or> p = ''b.txt''),
     fork_ret = 7, execl_ok = (\<lambda>p. True), trace = []\<rparr>"

definition copy_args :: buffer where
  "copy_args = [row_of ''copy'', row_of ''a.txt'', row_of ''b.txt'', row_of []]"

definition run_args :: buffer where
  "run_args = [row_of ''run'', row_of ''./nonexistent'', row_of [], row_of []]"

text \<open>An array as \<open>main\<close> allocates it, here filled with nulls.\<close>

definition buf0 :: buffer where
  "buf0 = replicate MAX_PARAMS (replicate (MAX_PARAM_LENGTH + 1) NUL)"

section \<open>Properties of the commands\<close>

subsection \<open>Auxiliary facts\<close>

lemma cstr_row_of: "NUL \<notin> set s \<Longrightarrow> length s \<le> MAX_PARAM_LENGTH \<Longrightarrow> cstr (row_of s) = s"
proof -
  assume a: "NUL \<notin> set s"
  have "takeWhile (\<lambda>c. c \<noteq> NUL) (s @ replicate (MAX_PARAM_LENGTH + 1 - length s) NUL)
      = s @ takeWhile (\<lambda>c. c \<noteq> NUL) (replicate (MAX_PARAM_LENGTH + 1 - length s) NUL)"
    by (rule takeWhile_append2) (use a in auto)
  then show ?thesis by (simp add: cstr_def row_of_def takeWhile_replicate)
qed

lemma validateOutFile_exists:
  "files w fileName = Some old \<Longrightarrow>
   validateOutFile fileName w =
     (if fst (cin_word (stdin w)) \<noteq> ''y''
      then (False, w\<lparr>stdin := clearInput (snd (cin_word (stdin w))),
                     stdout := stdout w @ confirm_text fileName @ ''Operation aborted.'' @ [NL],
                     trace := trace w @ [OpenRead fileName]\<rparr>)
      else (True, w\<lparr>stdin := clearInput (snd (cin_word (stdin w))),
                    stdout := stdout w @ confirm_text fileName,
                    trace := trace w @ [OpenRead fileName]\<rparr>))"
  by (simp add: validateOutFile_def emit_def cout_def confirm_text_def Let_def split: prod.splits)

lemma createInStream_exists:
  "files w fileName = Some bytes \<Longrightarrow>
   createInStream fileName w = (True, bytes, w\<lparr>trace := trace w @ [OpenRead fileName]\<rparr>)"
  by (simp add: createInStream_def emit_def Let_def)



lemma copy_bytes_trace:
  "\<exists>evs. trace (copy_bytes src dst bs w) = trace w @ evs"
proof (induction bs arbitrary: w)
  case Nil
  show ?case by (simp add: emit_def)
next
  case (Cons c cs)
  let ?w1 = "emit (WriteByte dst c) (emit (ReadByte src) w)"
  let ?w2 = "?w1\<lparr>files := (files ?w1)(dst \<mapsto> (case files ?w1 dst of None \<Rightarrow> [c] | Some old \<Rightarrow> old @ [c]))\<rparr>"
  from Cons.IH [of ?w2] obtain evs where "trace (copy_bytes src dst cs ?w2) = trace ?w2 @ evs"
    by blast
  then have "trace (copy_bytes src dst (c # cs) w) = trace w @ ([ReadByte src, WriteByte dst c] @ evs)"
    by (simp add: emit_def Let_def)
  then show ?case by blast
qed


lemma copy_args_cstr:
  "cstr (copy_args ! 1) = ''a.txt''" "cstr (copy_args ! Suc 0) = ''a.txt''"
  "cstr (copy_args ! 2) = ''b.txt''"
  by (simp_all add: copy_args_def cstr_row_of MAX_PARAM_LENGTH_def)

lemma run_args_cstr:
  "cstr (run_args ! 1) = ''./nonexistent''" "cstr (run_args ! Suc 0) = ''./nonexistent''"
  by (simp_all add: run_args_def cstr_row_of MAX_PARAM_LENGTH_def)


lemma cin_word_Y: "cin_word [CHR ''Y'', NL] = (''Y'', [NL])"
  by (simp add: cin_word_def isspace_def)

lemma cin_word_y: "cin_word [CHR ''y'', NL] = (''y'', [NL])"
  by (simp add: cin_word_def isspace_def)

subsection \<open>Copying a file onto itself\<close>

text \<open>
  Claim C4. When \<open>copy\<close> is called with count 3 and the source and destination names
  are equal as C strings (\<open>strcmp\<close> returns 0), it prints "Cannot copy same file!" and
  returns: the result is the world it was given with that one line added to the output.
  The trace and the files are those of before, so no file is opened, created, read or
  written, whatever files exist.
\<close>

theorem copy_same_file_refused:
  assumes "cstr (a ! 1) = cstr (a ! 2)"
  shows "copy_cmd a 3 w = (Running, w\<lparr>stdout := stdout w @ ''Cannot copy same file!'' @ [NL]\<rparr>)"
  using assms by (simp add: copy_cmd_def cout_def)

theorem copy_same_file_refused_witness:
  "cstr ([row_of ''copy'', row_of ''a.txt'', row_of ''a.txt'', row_of []] ! 1)
     = cstr ([row_of ''copy'', row_of ''a.txt'', row_of ''a.txt'', row_of []] ! 2)
   \<and> copy_cmd [row_of ''copy'', row_of ''a.txt'', row_of ''a.txt'', row_of []] 3 world0
     = (Running, world0\<lparr>stdout := stdout world0 @ ''Cannot copy same file!'' @ [NL]\<rparr>)"
proof -
  have h: "cstr ([row_of ''copy'', row_of ''a.txt'', row_of ''a.txt'', row_of []] ! 1)
     = cstr ([row_of ''copy'', row_of ''a.txt'', row_of ''a.txt'', row_of []] ! 2)"
    by simp
  show ?thesis using h copy_same_file_refused [OF h, of world0] by simp
qed

subsection \<open>\<open>run\<close> looks for the file before it forks\<close>

text \<open>
  Claim C6. When \<open>run\<close> is called with count 2, the first primitive it calls is
  \<open>stat\<close> on the path. \<open>fork\<close> is called if and only if \<open>stat\<close> succeeded. When
  \<open>stat\<close> fails, \<open>run\<close> prints "Unable to find executable file" with the path in
  quotes and returns, \<open>stat\<close> being the only primitive called.
\<close>

theorem run_checks_before_fork:
  "\<exists>evs. trace (snd (run_cmd a 2 w)) = trace w @ Stat (cstr (a ! 1)) # evs
        \<and> (Fork \<in> set evs \<longleftrightarrow> stat_ok w (cstr (a ! 1)))
        \<and> (\<not> stat_ok w (cstr (a ! 1)) \<longrightarrow>
             run_cmd a 2 w =
               (Running, w\<lparr>stdout := stdout w @ ''Unable to find executable file '' @ [DQ]
                                       @ cstr (a ! 1) @ [DQ] @ ''.'' @ [NL],
                           trace := trace w @ [Stat (cstr (a ! 1))]\<rparr>))"
  by (auto simp: run_cmd_def fileExists_def emit_def cout_def Let_def)

theorem run_checks_before_fork_witness:
  "\<not> stat_ok world0 (cstr (run_args ! 1))
   \<and> run_cmd run_args 2 world0 =
       (Running, world0\<lparr>stdout := ''Unable to find executable file '' @ [DQ]
                                   @ ''./nonexistent'' @ [DQ] @ ''.'' @ [NL],
                        trace := [Stat ''./nonexistent'']\<rparr>)
   \<and> stat_ok world0 (cstr (copy_args ! 1))
   \<and> (\<exists>evs. trace (snd (run_cmd copy_args 2 world0)) = Stat ''a.txt'' # evs \<and> Fork \<in> set evs)"
proof -
  have h1: "\<not> stat_ok world0 (cstr (run_args ! 1))"
    by (simp add: run_args_cstr world0_def)
  have h2: "stat_ok world0 (cstr (copy_args ! 1))"
    by (simp add: copy_args_cstr world0_def)
  from run_checks_before_fork [of run_args world0] h1
  have "run_cmd run_args 2 world0 =
       (Running, world0\<lparr>stdout := ''Unable to find executable file '' @ [DQ]
                                   @ ''./nonexistent'' @ [DQ] @ ''.'' @ [NL],
                        trace := [Stat ''./nonexistent'']\<rparr>)"
    by (auto simp: run_args_cstr world0_def)
  moreover from run_checks_before_fork [of copy_args world0] h2
  have "\<exists>evs. trace (snd (run_cmd copy_args 2 world0)) = Stat ''a.txt'' # evs \<and> Fork \<in> set evs"
    by (auto simp: copy_args_cstr world0_def)
  ultimately show ?thesis using h1 h2 by blast
qed

subsection \<open>Declining to overwrite\<close>




subsection \<open>Only "y" confirms\<close>

text \<open>
  Claim C8. Let \<open>copy\<close> reach the question: count 3, different names, source and
  destination both opening for reading. If the word read from standard input is exactly
  "y", \<open>copy\<close> goes on to open the destination for writing. For every other word
  ("Y", "yes", "n", the empty word at the end of input) it prints "Operation aborted."
  and returns without opening it.
\<close>

theorem copy_continues_only_on_y:
  assumes "cstr (a ! 1) \<noteq> cstr (a ! 2)" and "files w (cstr (a ! 1)) = Some bytes"
    and "files w (cstr (a ! 2)) = Some old"
  shows "(fst (cin_word (stdin w)) = ''y'' \<longrightarrow>
            (\<exists>evs. trace (snd (copy_cmd a 3 w))
               = trace w @ [OpenRead (cstr (a ! 1)), OpenRead (cstr (a ! 2)),
                            OpenWrite (cstr (a ! 2))] @ evs))
       \<and> (fst (cin_word (stdin w)) \<noteq> ''y'' \<longrightarrow>
            copy_cmd a 3 w =
              (Running, w\<lparr>stdin := clearInput (snd (cin_word (stdin w))),
                          stdout := stdout w @ confirm_text (cstr (a ! 2)) @ ''Operation aborted.'' @ [NL],
                          trace := trace w @ [OpenRead (cstr (a ! 1)), OpenRead (cstr (a ! 2))]\<rparr>))"
proof (intro conjI impI)
  assume "fst (cin_word (stdin w)) \<noteq> ''y''"
  with assms show "copy_cmd a 3 w =
              (Running, w\<lparr>stdin := clearInput (snd (cin_word (stdin w))),
                          stdout := stdout w @ confirm_text (cstr (a ! 2)) @ ''Operation aborted.'' @ [NL],
                          trace := trace w @ [OpenRead (cstr (a ! 1)), OpenRead (cstr (a ! 2))]\<rparr>)"
    by (simp add: copy_cmd_def createInStream_exists validateOutFile_exists)
next
  assume y: "fst (cin_word (stdin w)) = ''y''"
  show "\<exists>evs. trace (snd (copy_cmd a 3 w))
               = trace w @ [OpenRead (cstr (a ! 1)), OpenRead (cstr (a ! 2)),
                            OpenWrite (cstr (a ! 2))] @ evs"
  proof (cases "creatable w (cstr (a ! 2))")
    case False
    with assms y show ?thesis
      by (simp add: copy_cmd_def createInStream_exists validateOutFile_exists
          createOutStream_def emit_def cout_def Let_def)
  next
    case True
    let ?w3 = "w\<lparr>stdin := clearInput (snd (cin_word (stdin w))),
                 stdout := stdout w @ confirm_text (cstr (a ! 2)),
                 trace := trace w @ [OpenRead (cstr (a ! 1)), OpenRead (cstr (a ! 2)), OpenWrite (cstr (a ! 2))],
                 files := (files w)(cstr (a ! 2) \<mapsto> [])\<rparr>"
    from assms y True have "copy_cmd a 3 w = (Running, copy_bytes (cstr (a ! 1)) (cstr (a ! 2)) bytes ?w3)"
      by (simp add: copy_cmd_def createInStream_exists validateOutFile_exists
          createOutStream_def emit_def cout_def Let_def)
    moreover from copy_bytes_trace [of "cstr (a ! 1)" "cstr (a ! 2)" bytes ?w3]
    obtain evs where "trace (copy_bytes (cstr (a ! 1)) (cstr (a ! 2)) bytes ?w3) = trace ?w3 @ evs"
      by blast
    ultimately show ?thesis by simp
  qed
qed

theorem copy_continues_only_on_y_witness:
  "cstr (copy_args ! 1) \<noteq> cstr (copy_args ! 2)
   \<and> files world0 (cstr (copy_args ! 1)) = Some ''hello''
   \<and> files world0 (cstr (copy_args ! 2)) = Some ''old''
   \<and> copy_cmd copy_args 3 (world0\<lparr>stdin := ''Y'' @ [NL]\<rparr>)
       = (Running, world0\<lparr>stdin := [],
                     stdout := confirm_text ''b.txt'' @ ''Operation aborted.'' @ [NL],
                     trace := [OpenRead ''a.txt'', OpenRead ''b.txt'']\<rparr>)
   \<and> (\<exists>evs. trace (snd (copy_cmd copy_args 3 (world0\<lparr>stdin := ''y'' @ [NL]\<rparr>)))
         = [OpenRead ''a.txt'', OpenRead ''b.txt'', OpenWrite ''b.txt''] @ evs)"
proof -
  have h1: "cstr (copy_args ! 1) \<noteq> cstr (copy_args ! 2)"
    by (simp add: copy_args_cstr)
  have h2: "files (world0\<lparr>stdin := s\<rparr>) (cstr (copy_args ! 1)) = Some ''hello''" for s
    by (simp add: copy_args_cstr world0_def)
  have h3: "files (world0\<lparr>stdin := s\<rparr>) (cstr (copy_args ! 2)) = Some ''old''" for s
    by (simp add: copy_args_cstr world0_def)
  from copy_continues_only_on_y [OF h1 h2 h3, of "''Y'' @ [NL]"]
  have a: "copy_cmd copy_args 3 (world0\<lparr>stdin := ''Y'' @ [NL]\<rparr>)
       = (Running, world0\<lparr>stdin := [],
                     stdout := confirm_text ''b.txt'' @ ''Operation aborted.'' @ [NL],
                     trace := [OpenRead ''a.txt'', OpenRead ''b.txt'']\<rparr>)"
    by (simp add: copy_args_cstr cin_word_Y clearInput_def world0_def)
  from copy_continues_only_on_y [OF h1 h2 h3, of "''y'' @ [NL]"]
  have b: "\<exists>evs. trace (snd (copy_cmd copy_args 3 (world0\<lparr>stdin := ''y'' @ [NL]\<rparr>)))
         = [OpenRead ''a.txt'', OpenRead ''b.txt'', OpenWrite ''b.txt''] @ evs"
    by (simp add: copy_args_cstr cin_word_y world0_def)
  from h1 h2 [of "[]"] h3 [of "[]"] a b show ?thesis by (simp add: world0_def)
qed



section \<open>Properties of the tokenizer\<close>

subsection \<open>Single steps of the reading loop\<close>

lemma parse_loop_NL:
  "parse_loop a p c n (NL # inp) =
     (if c > 0 then (case store a p c NUL of None \<Rightarrow> None | Some a1 \<Rightarrow> Some (a1, n + 1, inp, []))
      else Some (a, n, inp, []))"
  by (subst parse_loop.simps) simp

lemma parse_loop_SP:
  "parse_loop a p c n (SP # inp) =
     (if c > 0 then
        (case store a p c NUL of None \<Rightarrow> None
         | Some a1 \<Rightarrow> if p + 1 \<ge> MAX_PARAMS then Some (a1, n + 1, clearInput inp, [])
                      else parse_loop a1 (p + 1) 0 (n + 1) inp)
      else parse_loop a p c n inp)"
  by (subst parse_loop.simps) simp

lemma parse_loop_char:
  "x \<noteq> SP \<Longrightarrow> x \<noteq> NL \<Longrightarrow>
   parse_loop a p c n (x # inp) =
     (case store a p c (if p = 0 then tolower x else x) of None \<Rightarrow> None
      | Some a1 \<Rightarrow> if c + 1 > MAX_PARAM_LENGTH
                   then Some (a1, - 1, clearInput inp, too_long_msg p)
                   else parse_loop a1 p (c + 1) n inp)"
  by (subst parse_loop.simps) simp

lemma store_allocated:
  assumes "allocated a" "p < MAX_PARAMS" "c \<le> MAX_PARAM_LENGTH"
  shows "store a p c v = Some (write_run a p c [v])" and "allocated (write_run a p c [v])"
proof -
  from assms have len: "p < length a" "c < length (a ! p)"
    by (auto simp: allocated_def)
  then show "store a p c v = Some (write_run a p c [v])"
    by (simp add: store_def write_run_def upd_conv_take_nth_drop)
  from assms len show "allocated (write_run a p c [v])"
    by (auto simp: allocated_def write_run_def dest!: set_update_subset_insert [THEN subsetD])
qed

lemma write_run_allocated:
  assumes "allocated a" "p < MAX_PARAMS" "c + length cs \<le> MAX_PARAM_LENGTH + 1"
  shows "allocated (write_run a p c cs)"
  using assms
  by (auto simp: allocated_def write_run_def dest!: set_update_subset_insert [THEN subsetD])

lemma write_run_append:
  assumes "p < length a" "c + length xs + length ys \<le> length (a ! p)"
  shows "write_run (write_run a p c xs) p (c + length xs) ys = write_run a p c (xs @ ys)"
  using assms by (simp add: write_run_def ac_simps)

lemma write_run_Nil: "p < length a \<Longrightarrow> c \<le> length (a ! p) \<Longrightarrow> write_run a p c [] = a"
  by (simp add: write_run_def)


lemma stored_simps:
  "stored p [] = []"
  "stored p (x # t) = (if p = 0 then tolower x else x) # stored p t"
  "length (stored p t) = length t"
  "stored p (take k t) = take k (stored p t)"
  by (simp_all add: stored_def take_map)

lemma parse_loop_run:
  assumes "allocated a" "p < MAX_PARAMS" "SP \<notin> set t" "NL \<notin> set t"
    "c + length t \<le> MAX_PARAM_LENGTH"
  shows "parse_loop a p c n (t @ inp)
       = parse_loop (write_run a p c (stored p t)) p (c + length t) n inp"
  using assms
proof (induction t arbitrary: a c)
  case Nil
  then show ?case by (simp add: stored_simps write_run_Nil allocated_def)
next
  case (Cons x t)
  let ?x = "if p = 0 then tolower x else x"
  let ?a1 = "write_run a p c [?x]"
  from Cons.prems have c: "c \<le> MAX_PARAM_LENGTH" "\<not> c + 1 > MAX_PARAM_LENGTH" by simp_all
  from Cons.prems have x: "x \<noteq> SP" "x \<noteq> NL" by auto
  have st: "store a p c ?x = Some ?a1" and al: "allocated ?a1"
    using store_allocated [OF Cons.prems(1,2) c(1)] by blast+
  have "parse_loop a p c n ((x # t) @ inp) = parse_loop ?a1 p (c + 1) n (t @ inp)"
    using c(2) by (simp add: parse_loop_char [OF x] st)
  also have "\<dots> = parse_loop (write_run ?a1 p (c + 1) (stored p t)) p (c + 1 + length t) n inp"
    using Cons.prems by (intro Cons.IH [OF al]) auto
  also have "write_run ?a1 p (c + 1) (stored p t) = write_run a p c ([?x] @ stored p t)"
    using write_run_append [of p a c "[?x]" "stored p t"] Cons.prems
    by (simp add: allocated_def stored_simps)
  finally show ?case by (simp add: stored_simps)
qed

lemma clearInput_line: "NL \<notin> set l \<Longrightarrow> clearInput (l @ NL # rest) = rest"
  by (induction l) (auto simp: clearInput_def)

lemma parse_loop_overflow:
  assumes "allocated a" "p < MAX_PARAMS" "SP \<notin> set t" "NL \<notin> set t"
    "c \<le> MAX_PARAM_LENGTH" "c + length t > MAX_PARAM_LENGTH"
  shows "parse_loop a p c n (t @ inp)
       = Some (write_run a p c (take (MAX_PARAM_LENGTH + 1 - c) (stored p t)), - 1,
               clearInput (drop (MAX_PARAM_LENGTH + 1 - c) t @ inp), too_long_msg p)"
proof -
  define k where "k = MAX_PARAM_LENGTH - c"
  from assms have k: "k < length t" "c + k = MAX_PARAM_LENGTH" "MAX_PARAM_LENGTH + 1 - c = Suc k"
    by (auto simp: k_def)
  let ?t1 = "take k t"
  let ?x = "if p = 0 then tolower (t ! k) else t ! k"
  let ?a1 = "write_run a p c (stored p ?t1)"
  have split: "t = ?t1 @ t ! k # drop (Suc k) t"
    using k(1) by (simp add: id_take_nth_drop [symmetric])
  have x: "t ! k \<noteq> SP" "t ! k \<noteq> NL"
    using assms(3,4) k(1) by (metis nth_mem)+
  have t1: "SP \<notin> set ?t1" "NL \<notin> set ?t1" "c + length ?t1 \<le> MAX_PARAM_LENGTH" "length ?t1 = k"
    using assms(3,4) k by (auto dest: in_set_takeD)
  have al: "allocated ?a1"
    using assms(1,2) t1 by (intro write_run_allocated) (simp_all add: stored_simps)
  have "parse_loop a p c n (t @ inp) = parse_loop a p c n (?t1 @ (t ! k # drop (Suc k) t @ inp))"
    using split by (metis append.assoc append_Cons)
  also have "\<dots> = parse_loop ?a1 p (c + k) n (t ! k # drop (Suc k) t @ inp)"
    using parse_loop_run [OF assms(1,2) t1(1,2,3)] t1(4) by simp
  also have "\<dots> = Some (write_run ?a1 p (c + k) [?x], - 1, clearInput (drop (Suc k) t @ inp), too_long_msg p)"
    using store_allocated(1) [OF al assms(2), of "c + k"] k(2)
    by (simp add: parse_loop_char [OF x])
  also have "write_run ?a1 p (c + k) [?x] = write_run a p c (stored p ?t1 @ [?x])"
    using write_run_append [of p a c "stored p ?t1" "[?x]"] assms(1,2) k t1(4)
    by (simp add: allocated_def stored_simps)
  also have "stored p ?t1 @ [?x] = take (Suc k) (stored p t)"
    using k(1) by (simp add: stored_def take_Suc_conv_app_nth take_map)
  finally show ?thesis unfolding k(3) by simp
qed

lemma parse_loop_line:
  assumes "allocated a" "p < MAX_PARAMS" "NL \<notin> set l"
  shows "parse_loop a p 0 n (l @ NL # rest) = fill a p n (tokens_of l) rest"
  using assms
proof (induction l arbitrary: a p n rule: tokens_of.induct)
  case 1
  show ?case by (simp add: parse_loop_NL)
next
  case (2 x cs)
  show ?case
  proof (cases "x = SP")
    case True
    with 2 show ?thesis by (simp add: parse_loop_SP)
  next
    case False
    let ?t = "x # takeWhile (\<lambda>y. y \<noteq> SP) cs"
    let ?d = "dropWhile (\<lambda>y. y \<noteq> SP) cs"
    have split: "(x # cs) @ NL # rest = ?t @ (?d @ NL # rest)"
      unfolding append_assoc [symmetric] by simp
    have L: "parse_loop a p 0 n ((x # cs) @ NL # rest) = parse_loop a p 0 n (?t @ (?d @ NL # rest))"
      by (simp only: split)
    have R: "fill a p n (tokens_of (x # cs)) rest = fill a p n (?t # tokens_of ?d) rest"
      using False by simp
    from "2.prems" False have t: "SP \<notin> set ?t" "NL \<notin> set ?t"
      by (auto dest: set_takeWhileD)
    from "2.prems" have d: "NL \<notin> set ?d"
      by (auto dest: set_dropWhileD)
    have main: "parse_loop a p 0 n (?t @ (?d @ NL # rest)) = fill a p n (?t # tokens_of ?d) rest"
    proof (cases "length ?t > MAX_PARAM_LENGTH")
      case True
      have "parse_loop a p 0 n (?t @ (?d @ NL # rest))
          = Some (write_run a p 0 (take (MAX_PARAM_LENGTH + 1) (stored p ?t)), - 1,
               clearInput (drop (MAX_PARAM_LENGTH + 1) ?t @ (?d @ NL # rest)), too_long_msg p)"
        using parse_loop_overflow [OF "2.prems"(1,2) t, of 0 n "?d @ NL # rest"] True by simp
      moreover have "clearInput (drop (MAX_PARAM_LENGTH + 1) ?t @ (?d @ NL # rest)) = rest"
        using clearInput_line [of "drop (MAX_PARAM_LENGTH + 1) ?t @ ?d" rest] t(2) d
        by (auto dest: in_set_dropD)
      ultimately show ?thesis using True by simp
    next
      case short: False
      let ?a1 = "write_run a p 0 (stored p ?t)"
      let ?a2 = "write_run a p 0 (stored p ?t @ [NUL])"
      have al1: "allocated ?a1"
        using "2.prems"(1,2) short by (intro write_run_allocated) (simp_all add: stored_simps)
      have al2: "allocated ?a2"
        using "2.prems"(1,2) short by (intro write_run_allocated) (simp_all add: stored_simps)
      have st: "store ?a1 p (length ?t) NUL = Some ?a2"
        using store_allocated(1) [OF al1 "2.prems"(2), of "length ?t" NUL] short
          write_run_append [of p a 0 "stored p ?t" "[NUL]"] "2.prems"(1,2)
        by (simp add: allocated_def stored_simps)
      have run: "parse_loop a p 0 n (?t @ (?d @ NL # rest))
          = parse_loop ?a1 p (length ?t) n (?d @ NL # rest)"
        using parse_loop_run [OF "2.prems"(1,2) t, of 0 n "?d @ NL # rest"] short by simp
      show ?thesis
      proof (cases ?d)
        case Nil
        show ?thesis
          unfolding Nil using run [unfolded Nil] st short by (simp add: parse_loop_NL)
      next
        case (Cons y d')
        then have y: "y = SP"
          by (metis (mono_tags, lifting) dropWhile_eq_Cons_conv)
        from d Cons have d': "NL \<notin> set d'" by simp
        show ?thesis
        proof (cases "p + 1 \<ge> MAX_PARAMS")
          case True
          with run st short Cons y d' show ?thesis
            by (simp add: parse_loop_SP clearInput_line)
        next
          case more: False
          have ih: "parse_loop ?a2 (p + 1) 0 (n + 1) (?d @ NL # rest)
                  = fill ?a2 (p + 1) (n + 1) (tokens_of ?d) rest"
            using more d by (intro "2.IH"(2) [OF False al2]) simp_all
          have "parse_loop ?a1 p (length ?t) n (?d @ NL # rest)
              = parse_loop ?a2 (p + 1) 0 (n + 1) (d' @ NL # rest)"
            using st more Cons y by (simp add: parse_loop_SP)
          also have "\<dots> = parse_loop ?a2 (p + 1) 0 (n + 1) (?d @ NL # rest)"
            using Cons y by (simp add: parse_loop_SP)
          finally show ?thesis using run ih short more by simp
        qed
      qed
    qed
    show ?thesis unfolding L R by (rule main)
  qed
qed

lemma store_write_run:
  "i < length a \<Longrightarrow> j < length (a ! i) \<Longrightarrow> store a i j v = Some (write_run a i j [v])"
  by (simp add: store_def write_run_def upd_conv_take_nth_drop)

lemma clear_row_prefix:
  assumes "i < length a" "k \<le> length (a ! i)"
  shows "fold (\<lambda>j acc. case acc of None \<Rightarrow> None | Some b \<Rightarrow> store b i j NUL) [0..<k] (Some a)
       = Some (write_run a i 0 (replicate k NUL))"
  using assms(2)
proof (induction k)
  case 0
  with assms(1) show ?case by (simp add: write_run_Nil)
next
  case (Suc k)
  let ?b = "write_run a i 0 (replicate k NUL)"
  from Suc.prems assms(1) have b: "i < length ?b" "k < length (?b ! i)"
    by (simp_all add: write_run_def)
  from Suc have "fold (\<lambda>j acc. case acc of None \<Rightarrow> None | Some b \<Rightarrow> store b i j NUL) [0..<Suc k] (Some a)
      = store ?b i k NUL"
    by simp
  also have "\<dots> = Some (write_run ?b i k [NUL])"
    by (rule store_write_run [OF b])
  also have "write_run ?b i k [NUL] = write_run a i 0 (replicate k NUL @ [NUL])"
    using write_run_append [of i a 0 "replicate k NUL" "[NUL]"] assms(1) Suc.prems by simp
  finally show ?case by (simp add: replicate_append_same)
qed

lemma clear_row_allocated:
  assumes "allocated a" "i < MAX_PARAMS"
  shows "clear_row a i = Some (write_run a i 0 (replicate MAX_PARAM_LENGTH NUL))"
  unfolding clear_row_def using assms
  by (intro clear_row_prefix) (simp_all add: allocated_def)

lemma clear_rows_prefix:
  assumes "allocated a" "k \<le> MAX_PARAMS"
  shows "fold (\<lambda>i acc. case acc of None \<Rightarrow> None | Some b \<Rightarrow> clear_row b i) [0..<k] (Some a)
       = Some (fold (\<lambda>i b. write_run b i 0 (replicate MAX_PARAM_LENGTH NUL)) [0..<k] a)
     \<and> allocated (fold (\<lambda>i b. write_run b i 0 (replicate MAX_PARAM_LENGTH NUL)) [0..<k] a)"
  using assms(2)
proof (induction k)
  case 0
  with assms(1) show ?case by simp
next
  case (Suc k)
  let ?b = "fold (\<lambda>i b. write_run b i 0 (replicate MAX_PARAM_LENGTH NUL)) [0..<k] a"
  from Suc have ih: "fold (\<lambda>i acc. case acc of None \<Rightarrow> None | Some b \<Rightarrow> clear_row b i) [0..<k] (Some a)
       = Some ?b" and al: "allocated ?b" and k: "k < MAX_PARAMS"
    by simp_all
  have "allocated (write_run ?b k 0 (replicate MAX_PARAM_LENGTH NUL))"
    using al k by (intro write_run_allocated) simp_all
  with ih clear_row_allocated [OF al k] show ?case by simp
qed

lemma clear_rows_allocated:
  assumes "allocated a"
  shows "clear_rows a = Some (cleared a)" and "allocated (cleared a)"
  using clear_rows_prefix [OF assms, of MAX_PARAMS]
  by (simp_all add: clear_rows_def cleared_def)

lemma parse_line:
  assumes "allocated a" "NL \<notin> set l" "stdin w = l @ NL # rest"
  shows "parse a w =
     (case fill (cleared a) 0 0 (tokens_of l) rest of
        None \<Rightarrow> None
      | Some (a1, len, r, out) \<Rightarrow> Some (a1, len, cout out (w\<lparr>stdin := r\<rparr>)))"
  using clear_rows_allocated [OF assms(1)]
    parse_loop_line [OF clear_rows_allocated(2) [OF assms(1)] _ assms(2), of 0 0 rest] assms(3)
  by (simp add: parse_def MAX_PARAMS_def)

lemma fill_rest:
  "\<exists>a' n' out. fill a p n ts rest = Some (a', n', rest, out)"
  by (induction ts arbitrary: a p n) simp_all

lemma fill_frame:
  "fill a p n ts rest = Some (a', n', r, out) \<Longrightarrow> length a' = length a \<and> (\<forall>j<p. a' ! j = a ! j)"
proof (induction ts arbitrary: a p n)
  case Nil
  then show ?case by simp
next
  case (Cons t ts)
  show ?case
  proof (cases "length t > MAX_PARAM_LENGTH \<or> p + 1 \<ge> MAX_PARAMS")
    case True
    with Cons.prems show ?thesis by (auto simp: write_run_def split: if_splits)
  next
    case False
    with Cons.prems
    have "fill (write_run a p 0 (stored p t @ [NUL])) (p + 1) (n + 1) ts rest = Some (a', n', r, out)"
      by simp
    from Cons.IH [OF this] show ?thesis by (auto simp: write_run_def)
  qed
qed

lemma fill_allocated:
  "allocated a \<Longrightarrow> p < MAX_PARAMS \<Longrightarrow> fill a p n ts rest = Some (a', n', r, out) \<Longrightarrow> allocated a'"
proof (induction ts arbitrary: a p n)
  case Nil
  then show ?case by simp
next
  case (Cons t ts)
  show ?case
  proof (cases "length t > MAX_PARAM_LENGTH")
    case True
    with Cons.prems have "a' = write_run a p 0 (take (MAX_PARAM_LENGTH + 1) (stored p t))" by simp
    with Cons.prems show ?thesis by (simp add: write_run_allocated stored_simps)
  next
    case False
    then have al: "allocated (write_run a p 0 (stored p t @ [NUL]))"
      using Cons.prems by (intro write_run_allocated) (simp_all add: stored_simps)
    show ?thesis
    proof (cases "p + 1 \<ge> MAX_PARAMS")
      case True
      with False Cons.prems al show ?thesis by simp
    next
      case more: False
      with False Cons.prems
      have "fill (write_run a p 0 (stored p t @ [NUL])) (p + 1) (n + 1) ts rest = Some (a', n', r, out)"
        by simp
      from Cons.IH [OF al _ this] more show ?thesis by simp
    qed
  qed
qed

lemma fill_count:
  "p < MAX_PARAMS \<Longrightarrow> fill a p n ts rest = Some (a', n', r, out) \<Longrightarrow>
   n' = - 1 \<or> n' = n + int (min (length ts) (MAX_PARAMS - p))"
proof (induction ts arbitrary: a p n)
  case Nil
  then show ?case by simp
next
  case (Cons t ts)
  show ?case
  proof (cases "length t > MAX_PARAM_LENGTH \<or> p + 1 \<ge> MAX_PARAMS")
    case True
    with Cons.prems show ?thesis by (auto split: if_splits)
  next
    case False
    with Cons.prems
    have "fill (write_run a p 0 (stored p t @ [NUL])) (p + 1) (n + 1) ts rest = Some (a', n', r, out)"
      by simp
    from Cons.IH [OF _ this] False show ?thesis by auto
  qed
qed

lemma fill_fit:
  assumes "p < MAX_PARAMS" "\<forall>t \<in> set (take (MAX_PARAMS - p) ts). length t \<le> MAX_PARAM_LENGTH"
  shows "\<exists>a'. fill a p n ts rest = Some (a', n + int (min (length ts) (MAX_PARAMS - p)), rest, [])"
  using assms
proof (induction ts arbitrary: a p n)
  case Nil
  then show ?case by simp
next
  case (Cons t ts)
  from Cons.prems have t: "\<not> length t > MAX_PARAM_LENGTH"
    by (cases "MAX_PARAMS - p") auto
  show ?case
  proof (cases "p + 1 \<ge> MAX_PARAMS")
    case True
    with Cons.prems(1) have m: "MAX_PARAMS - p = 1" by simp
    from True t show ?thesis by (simp add: m)
  next
    case False
    then have "MAX_PARAMS - p = Suc (MAX_PARAMS - (p + 1))" by simp
    with Cons.prems have "\<forall>t \<in> set (take (MAX_PARAMS - (p + 1)) ts). length t \<le> MAX_PARAM_LENGTH"
      by simp
    from Cons.IH [OF _ this, of "write_run a p 0 (stored p t @ [NUL])" "n + 1"] False t
    show ?thesis by (auto simp: min_def)
  qed
qed

lemma fill_long:
  assumes "p + k < MAX_PARAMS" "k < length ts" "length (ts ! k) > MAX_PARAM_LENGTH"
    "\<forall>t \<in> set (take k ts). length t \<le> MAX_PARAM_LENGTH"
  shows "\<exists>a'. fill a p n ts rest = Some (a', - 1, rest, too_long_msg (p + k))"
  using assms
proof (induction ts arbitrary: a p n k)
  case Nil
  then show ?case by simp
next
  case (Cons t ts)
  show ?case
  proof (cases k)
    case 0
    with Cons.prems show ?thesis by simp
  next
    case (Suc k')
    with Cons.prems have t: "\<not> length t > MAX_PARAM_LENGTH" "\<not> p + 1 \<ge> MAX_PARAMS" by auto
    from Suc Cons.prems
    have "\<exists>a'. fill (write_run a p 0 (stored p t @ [NUL])) (p + 1) (n + 1) ts rest
            = Some (a', - 1, rest, too_long_msg (p + 1 + k'))"
      by (intro Cons.IH) auto
    with t Suc show ?thesis by simp
  qed
qed

lemma fill_long_any:
  assumes "p + k < MAX_PARAMS" "k < length ts" "length (ts ! k) > MAX_PARAM_LENGTH"
  shows "\<exists>a' j. j \<le> k \<and> fill a p n ts rest = Some (a', - 1, rest, too_long_msg (p + j))"
  using assms
proof (induction ts arbitrary: a p n k)
  case Nil
  then show ?case by simp
next
  case (Cons t ts)
  show ?case
  proof (cases "length t > MAX_PARAM_LENGTH")
    case True
    then have "fill a p n (t # ts) rest
      = Some (write_run a p 0 (take (MAX_PARAM_LENGTH + 1) (stored p t)), - 1, rest, too_long_msg (p + 0))"
      by simp
    then show ?thesis by blast
  next
    case False
    with Cons.prems obtain k' where k: "k = Suc k'" by (cases k) auto
    with Cons.prems have more: "\<not> p + 1 \<ge> MAX_PARAMS" by auto
    from k Cons.prems
    have "\<exists>a' j. j \<le> k' \<and> fill (write_run a p 0 (stored p t @ [NUL])) (p + 1) (n + 1) ts rest
            = Some (a', - 1, rest, too_long_msg (p + 1 + j))"
      by (intro Cons.IH) auto
    then obtain a' j where "j \<le> k'"
      "fill (write_run a p 0 (stored p t @ [NUL])) (p + 1) (n + 1) ts rest
            = Some (a', - 1, rest, too_long_msg (p + 1 + j))"
      by blast
    with False more k have "Suc j \<le> k \<and> fill a p n (t # ts) rest = Some (a', - 1, rest, too_long_msg (p + Suc j))"
      by simp
    then show ?thesis by blast
  qed
qed

lemma fill_slot:
  assumes "allocated a" "p + i < MAX_PARAMS" "i < length ts"
    "\<forall>t \<in> set (take (Suc i) ts). length t \<le> MAX_PARAM_LENGTH"
    "fill a p n ts rest = Some (a', n', r, out)"
  shows "take (length (ts ! i) + 1) (a' ! (p + i)) = stored (p + i) (ts ! i) @ [NUL]"
  using assms
proof (induction ts arbitrary: a p n i)
  case Nil
  then show ?case by simp
next
  case (Cons t ts)
  from Cons.prems have t: "\<not> length t > MAX_PARAM_LENGTH" by simp
  let ?a2 = "write_run a p 0 (stored p t @ [NUL])"
  from Cons.prems have p: "p < length a" by (simp add: allocated_def)
  have row: "take (length t + 1) (?a2 ! p) = stored p t @ [NUL]"
    using p by (simp add: write_run_def stored_simps)
  have al: "allocated ?a2"
    using Cons.prems t by (intro write_run_allocated) (simp_all add: stored_simps)
  show ?case
  proof (cases "p + 1 \<ge> MAX_PARAMS")
    case True
    with Cons.prems have "i = 0" by simp
    with True t Cons.prems row show ?thesis by simp
  next
    case more: False
    with t Cons.prems have rec: "fill ?a2 (p + 1) (n + 1) ts rest = Some (a', n', r, out)" by simp
    show ?thesis
    proof (cases i)
      case 0
      from fill_frame [OF rec] have "a' ! p = ?a2 ! p" by simp
      with 0 row show ?thesis by simp
    next
      case (Suc i')
      with Cons.prems have "take (length (ts ! i') + 1) (a' ! (p + 1 + i')) = stored (p + 1 + i') (ts ! i') @ [NUL]"
        by (intro Cons.IH [OF al _ _ _ rec]) auto
      with Suc show ?thesis by simp
    qed
  qed
qed



subsection \<open>The loop on any input\<close>

lemma parse_loop_total:
  "allocated a \<Longrightarrow> p < MAX_PARAMS \<Longrightarrow> c \<le> MAX_PARAM_LENGTH \<Longrightarrow>
   \<exists>a' n' r out. parse_loop a p c n inp = Some (a', n', r, out) \<and> allocated a'"
proof (induction a p c n inp rule: parse_loop.induct)
  case (1 a p c n inp)
  obtain x inp1 where g: "cin_get inp = (x, inp1)"
    by (cases "cin_get inp") auto
  note st = store_allocated [OF "1.prems"]
  show ?case
  proof (cases "x = NL")
    case True
    with g st [of NUL] "1.prems"(1) show ?thesis
      by (subst parse_loop.simps) auto
  next
    case notNL: False
    show ?thesis
    proof (cases "x = SP")
      case True
      show ?thesis
      proof (cases "c > 0")
        case False
        with True g notNL "1.IH"(2) [OF g [symmetric]] "1.prems" show ?thesis
          by (subst parse_loop.simps) auto
      next
        case pos: True
        show ?thesis
        proof (cases "p + 1 \<ge> MAX_PARAMS")
          case True
          with pos \<open>x = SP\<close> g st [of NUL] show ?thesis
            by (subst parse_loop.simps) auto
        next
          case False
          with pos \<open>x = SP\<close> notNL g st [of NUL]
            "1.IH"(1) [OF g [symmetric] _ _ pos st(1) [of NUL]]
          show ?thesis
            by (subst parse_loop.simps) auto
        qed
      qed
    next
      case False
      let ?v = "if p = 0 then tolower x else x"
      show ?thesis
      proof (cases "c + 1 > MAX_PARAM_LENGTH")
        case True
        with False notNL g st [of ?v] show ?thesis
          by (subst parse_loop.simps) auto
      next
        case fits: False
        with False notNL g st [of ?v] "1.prems"(2)
          "1.IH"(3) [OF g [symmetric] _ _ st(1) [of ?v]]
        show ?thesis
          by (subst parse_loop.simps) auto
      qed
    qed
  qed
qed

lemma parse_total:
  assumes "allocated a"
  shows "\<exists>a' len w'. parse a w = Some (a', len, w') \<and> allocated a'"
proof -
  from parse_loop_total [OF clear_rows_allocated(2) [OF assms], of 0 0 0 "stdin w"]
  obtain a' n' r out where "parse_loop (cleared a) 0 0 0 (stdin w) = Some (a', n', r, out)" "allocated a'"
    by (auto simp: MAX_PARAMS_def)
  with clear_rows_allocated(1) [OF assms] show ?thesis
    by (simp add: parse_def)
qed

lemma buf0_allocated: "allocated buf0"
  by (simp add: buf0_def allocated_def)

subsection \<open>Lines and their tokens\<close>

lemma tokens_of_spaces: "tokens_of (replicate k SP @ l) = tokens_of l"
  by (induction k) simp_all

lemma tokens_of_token:
  assumes "is_token t" "l = [] \<or> hd l = SP"
  shows "tokens_of (t @ l) = t # tokens_of l"
proof -
  from assms(1) obtain x t' where t: "t = x # t'" "x \<noteq> SP" "\<forall>y \<in> set t'. y \<noteq> SP"
    by (cases t) (auto simp: is_token_def)
  from assms(2) have l: "takeWhile (\<lambda>y. y \<noteq> SP) l = []" "dropWhile (\<lambda>y. y \<noteq> SP) l = l"
    by (cases l; simp)+
  have "takeWhile (\<lambda>y. y \<noteq> SP) (t' @ l) = t'"
    using t(3) l(1) by (simp add: takeWhile_append2)
  moreover have "dropWhile (\<lambda>y. y \<noteq> SP) (t' @ l) = l"
    using t(3) l(2) by (simp add: dropWhile_append2)
  ultimately show ?thesis using t by simp
qed

lemma tokens_of_spaced:
  "\<forall>t \<in> set ts. is_token t \<Longrightarrow> tokens_of (spaced ts gs @ replicate k SP) = ts"
proof (induction ts gs rule: spaced.induct)
  case (1 gs)
  show ?case using tokens_of_spaces [of k "[]"] by simp
next
  case (2 t gs)
  have "replicate k SP = [] \<or> hd (replicate k SP) = SP" by (cases k) simp_all
  with 2 tokens_of_token [of t "replicate k SP"] tokens_of_spaces [of k "[]"] show ?case by simp
next
  case (3 t t' ts gs)
  let ?g = "Suc (case gs of [] \<Rightarrow> 0 | g # _ \<Rightarrow> g)"
  let ?r = "spaced (t' # ts) (tl gs) @ replicate k SP"
  from 3 have ih: "tokens_of ?r = t' # ts" by simp
  have "tokens_of (t @ (replicate ?g SP @ ?r)) = t # tokens_of (replicate ?g SP @ ?r)"
    using 3 by (intro tokens_of_token) simp_all
  also have "\<dots> = t # tokens_of ?r"
    by (simp only: tokens_of_spaces)
  finally show ?case using ih by simp
qed

lemma tokens_of_line_of:
  "\<forall>t \<in> set ts. is_token t \<Longrightarrow> tokens_of (line_of lead gs trail ts) = ts"
  by (simp add: line_of_def tokens_of_spaces tokens_of_spaced)

lemma NL_spaced: "\<forall>t \<in> set ts. is_token t \<Longrightarrow> NL \<notin> set (spaced ts gs)"
  by (induction ts gs rule: spaced.induct) (auto simp: is_token_def)

lemma NL_line_of: "\<forall>t \<in> set ts. is_token t \<Longrightarrow> NL \<notin> set (line_of lead gs trail ts)"
  using NL_spaced [of ts gs] by (auto simp: line_of_def)

lemma fill_any_rest:
  "\<exists>a' n' out. \<forall>rest. fill a p n ts rest = Some (a', n', rest, out)"
proof (induction ts arbitrary: a p n)
  case Nil
  show ?case by simp
next
  case (Cons t ts)
  show ?case
  proof (cases "length t > MAX_PARAM_LENGTH")
    case True
    then show ?thesis by simp
  next
    case False
    show ?thesis
    proof (cases "p + 1 \<ge> MAX_PARAMS")
      case True
      with False show ?thesis by simp
    next
      case more: False
      from Cons [of "write_run a p 0 (stored p t @ [NUL])" "p + 1" "n + 1"]
      show ?thesis using False more by simp
    qed
  qed
qed

lemma concat_tokens_of: "concat (tokens_of l) = filter (\<lambda>c. c \<noteq> SP) l"
proof (induction l rule: tokens_of.induct)
  case 1
  show ?case by simp
next
  case (2 x cs)
  show ?case
  proof (cases "x = SP")
    case True
    with 2 show ?thesis by simp
  next
    case False
    have tw: "filter (\<lambda>c. c \<noteq> SP) (takeWhile (\<lambda>c. c \<noteq> SP) cs) = takeWhile (\<lambda>c. c \<noteq> SP) cs"
      by (induction cs) simp_all
    have "filter (\<lambda>c. c \<noteq> SP) cs
        = filter (\<lambda>c. c \<noteq> SP) (takeWhile (\<lambda>c. c \<noteq> SP) cs @ dropWhile (\<lambda>c. c \<noteq> SP) cs)"
      by simp
    also have "\<dots> = takeWhile (\<lambda>c. c \<noteq> SP) cs @ filter (\<lambda>c. c \<noteq> SP) (dropWhile (\<lambda>c. c \<noteq> SP) cs)"
      unfolding filter_append tw ..
    finally show ?thesis using False "2.IH"(2) by simp
  qed
qed

subsection \<open>\<open>parse\<close> on a line\<close>

lemma show_limit: "show_int (int MAX_PARAM_LENGTH) = ''100''"
  by code_simp

lemma show_small: "show_int 0 = ''0''" "show_int 1 = ''1''" "show_int 2 = ''2''" "show_int 3 = ''3''"
  by code_simp+

lemma cstr_take:
  assumes "take (length t + 1) row = t @ [NUL]" "NUL \<notin> set t"
  shows "cstr row = t"
proof -
  have "row = (t @ [NUL]) @ drop (length t + 1) row"
    using assms(1) append_take_drop_id [of "length t + 1" row] by simp
  then have "cstr row = takeWhile (\<lambda>c. c \<noteq> NUL) (t @ NUL # drop (length t + 1) row)"
    by (simp add: cstr_def)
  also have "\<dots> = t"
    using assms(2) by (subst takeWhile_append2) auto
  finally show ?thesis .
qed

lemma parse_long:
  assumes "allocated a" "NL \<notin> set l" "stdin w = l @ NL # rest"
    "k < length (tokens_of l)" "k < MAX_PARAMS"
    "length (tokens_of l ! k) > MAX_PARAM_LENGTH"
    "\<forall>t \<in> set (take k (tokens_of l)). length t \<le> MAX_PARAM_LENGTH"
  shows "\<exists>a'. parse a w = Some (a', - 1, w\<lparr>stdin := rest, stdout := stdout w @ too_long_msg k\<rparr>)"
proof -
  from fill_long [of 0 k "tokens_of l" "cleared a" 0 rest] assms(4-7)
  obtain a' where "fill (cleared a) 0 0 (tokens_of l) rest = Some (a', - 1, rest, too_long_msg k)"
    by auto
  with parse_line [OF assms(1-3)] show ?thesis by (simp add: cout_def)
qed

lemma parse_long_any:
  assumes "allocated a" "NL \<notin> set l" "stdin w = l @ NL # rest"
    "k < length (tokens_of l)" "k < MAX_PARAMS"
    "length (tokens_of l ! k) > MAX_PARAM_LENGTH"
  shows "\<exists>a' j. j \<le> k \<and>
           parse a w = Some (a', - 1, w\<lparr>stdin := rest, stdout := stdout w @ too_long_msg j\<rparr>)"
proof -
  from fill_long_any [of 0 k "tokens_of l" "cleared a" 0 rest] assms(4-6)
  obtain a' j where "j \<le> k"
    "fill (cleared a) 0 0 (tokens_of l) rest = Some (a', - 1, rest, too_long_msg j)"
    by auto
  with parse_line [OF assms(1-3)] show ?thesis by (auto simp: cout_def)
qed

lemma parse_slot:
  assumes "allocated a" "NL \<notin> set l" "stdin w = l @ NL # rest"
    "i < length (tokens_of l)" "i < MAX_PARAMS"
    "\<forall>t \<in> set (take (Suc i) (tokens_of l)). length t \<le> MAX_PARAM_LENGTH"
    "parse a w = Some (a', n, w')"
  shows "take (length (tokens_of l ! i) + 1) (a' ! i) = stored i (tokens_of l ! i) @ [NUL]"
proof -
  from assms(7) parse_line [OF assms(1-3)] obtain r out where
    f: "fill (cleared a) 0 0 (tokens_of l) rest = Some (a', n, r, out)"
    by (auto split: option.splits)
  from fill_slot [OF clear_rows_allocated(2) [OF assms(1)] _ assms(4) assms(6) f] assms(5)
  show ?thesis by simp
qed

lemma parse_fit:
  assumes "allocated a" "NL \<notin> set l" "stdin w = l @ NL # rest"
    "\<forall>t \<in> set (take MAX_PARAMS (tokens_of l)). length t \<le> MAX_PARAM_LENGTH"
  shows "\<exists>a'. parse a w = Some (a', int (min (length (tokens_of l)) MAX_PARAMS), w\<lparr>stdin := rest\<rparr>)
           \<and> (\<forall>i < min (length (tokens_of l)) MAX_PARAMS.
                 take (length (tokens_of l ! i) + 1) (a' ! i) = stored i (tokens_of l ! i) @ [NUL])"
proof -
  from fill_fit [of 0 "tokens_of l" "cleared a" 0 rest] assms(4)
  obtain a' where
    f: "fill (cleared a) 0 0 (tokens_of l) rest
          = Some (a', int (min (length (tokens_of l)) MAX_PARAMS), rest, [])"
    by (auto simp: MAX_PARAMS_def)
  with parse_line [OF assms(1-3)]
  have p: "parse a w = Some (a', int (min (length (tokens_of l)) MAX_PARAMS), w\<lparr>stdin := rest\<rparr>)"
    by (simp add: cout_def)
  have "take (length (tokens_of l ! i) + 1) (a' ! i) = stored i (tokens_of l ! i) @ [NUL]"
    if "i < min (length (tokens_of l)) MAX_PARAMS" for i
  proof -
    from that have "set (take (Suc i) (tokens_of l)) \<subseteq> set (take MAX_PARAMS (tokens_of l))"
      by (intro set_take_subset_set_take) simp
    with assms(4) have "\<forall>t \<in> set (take (Suc i) (tokens_of l)). length t \<le> MAX_PARAM_LENGTH"
      by blast
    with parse_slot [OF assms(1-3) _ _ _ p, of i] that show ?thesis by simp
  qed
  with p show ?thesis by blast
qed

subsection \<open>Evaluation on sample lines\<close>

lemma line_eval:
  "line_of 3 [3] 2 [''list'', ''.''] = ''   list    .  ''"
  "line_of 0 [0] 0 [''list'', ''.''] = ''list .''"
  by (simp_all add: line_of_def numeral_3_eq_3 numeral_2_eq_2)

lemma tokens_of_replicate:
  assumes "0 < n" "c \<noteq> SP" "c \<noteq> NL"
  shows "tokens_of (replicate n c) = [replicate n c]"
    and "tokens_of (replicate n c @ SP # l) = replicate n c # tokens_of l"
  using tokens_of_token [of "replicate n c" "[]"] tokens_of_token [of "replicate n c" "SP # l"] assms
  by (simp_all add: is_token_def)

lemma tolower_chars:
  "tolower CHR ''a'' = CHR ''a''" "tolower CHR ''c'' = CHR ''c''" "tolower CHR ''o'' = CHR ''o''"
  "tolower CHR ''p'' = CHR ''p''" "tolower CHR ''y'' = CHR ''y''" "tolower CHR ''r'' = CHR ''r''"
  "tolower CHR ''u'' = CHR ''u''" "tolower CHR ''n'' = CHR ''n''" "tolower CHR ''l'' = CHR ''l''"
  "tolower CHR ''L'' = CHR ''l''" "tolower CHR ''S'' = CHR ''s''" "tolower CHR ''-'' = CHR ''-''"
  "tolower TAB = TAB"
  by code_simp+

lemma cmdFunctions_a: "cmdFunctions ''a'' = None"
  by (simp add: cmdFunctions_def initMap_def)

subsection \<open>What the array holds after \<open>parse\<close>\<close>

lemma fill_slot_long:
  assumes "allocated a" "p + k < MAX_PARAMS" "k < length ts"
    "\<forall>t \<in> set (take k ts). length t \<le> MAX_PARAM_LENGTH"
    "length (ts ! k) > MAX_PARAM_LENGTH"
    "fill a p n ts rest = Some (a', n', r, out)"
  shows "a' ! (p + k) = take (MAX_PARAM_LENGTH + 1) (stored (p + k) (ts ! k))"
  using assms
proof (induction ts arbitrary: a p n k)
  case Nil
  then show ?case by simp
next
  case (Cons t ts)
  from Cons.prems have p: "p < length a" "length (a ! p) = MAX_PARAM_LENGTH + 1"
    by (simp_all add: allocated_def)
  show ?case
  proof (cases k)
    case 0
    with Cons.prems have "a' = write_run a p 0 (take (MAX_PARAM_LENGTH + 1) (stored p t))"
      by simp
    with 0 p Cons.prems(5) show ?thesis
      by (simp add: write_run_def stored_simps)
  next
    case (Suc k')
    with Cons.prems have t: "\<not> length t > MAX_PARAM_LENGTH" "\<not> p + 1 \<ge> MAX_PARAMS" by auto
    let ?a2 = "write_run a p 0 (stored p t @ [NUL])"
    have al: "allocated ?a2"
      using Cons.prems t by (intro write_run_allocated) (simp_all add: stored_simps)
    from t Cons.prems have rec: "fill ?a2 (p + 1) (n + 1) ts rest = Some (a', n', r, out)" by simp
    from Suc Cons.prems
    have "a' ! (p + 1 + k') = take (MAX_PARAM_LENGTH + 1) (stored (p + 1 + k') (ts ! k'))"
      by (intro Cons.IH [OF al _ _ _ _ rec]) auto
    with Suc show ?thesis by simp
  qed
qed

lemma parse_slot_long:
  assumes "allocated a" "NL \<notin> set l" "stdin w = l @ NL # rest"
    "i < length (tokens_of l)" "i < MAX_PARAMS"
    "\<forall>t \<in> set (take i (tokens_of l)). length t \<le> MAX_PARAM_LENGTH"
    "length (tokens_of l ! i) > MAX_PARAM_LENGTH"
    "parse a w = Some (a', n, w')"
  shows "a' ! i = take (MAX_PARAM_LENGTH + 1) (stored i (tokens_of l ! i))"
proof -
  from assms(8) parse_line [OF assms(1-3)] obtain r out where
    f: "fill (cleared a) 0 0 (tokens_of l) rest = Some (a', n, r, out)"
    by (auto split: option.splits)
  from fill_slot_long [OF clear_rows_allocated(2) [OF assms(1)] _ assms(4) assms(6,7) f] assms(5)
  show ?thesis by simp
qed

lemma write_run_chars:
  assumes "\<forall>row \<in> set a. set row \<subseteq> S" "set cs \<subseteq> S"
  shows "\<forall>row \<in> set (write_run a p c cs). set row \<subseteq> S"
proof (cases "p < length a")
  case False
  then have "length a \<le> p" by simp
  then have "write_run a p c cs = a"
    unfolding write_run_def by (rule list_update_beyond)
  with assms(1) show ?thesis by simp
next
  case True
  with assms(1) have "set (a ! p) \<subseteq> S" by simp
  then have "set (take c (a ! p) @ cs @ drop (c + length cs) (a ! p)) \<subseteq> S"
    using assms(2) by (auto dest: in_set_takeD in_set_dropD)
  with assms(1) show ?thesis
    unfolding write_run_def by (auto dest!: set_update_subset_insert [THEN subsetD])
qed

lemma cleared_chars:
  assumes "\<forall>row \<in> set a. set row \<subseteq> S" "NUL \<in> S"
  shows "\<forall>row \<in> set (cleared a). set row \<subseteq> S"
proof -
  have "\<forall>row \<in> set (fold (\<lambda>i b. write_run b i 0 (replicate MAX_PARAM_LENGTH NUL)) [0..<k] a).
          set row \<subseteq> S" for k
  proof (induction k)
    case 0
    with assms(1) show ?case by simp
  next
    case (Suc k)
    have "set (replicate MAX_PARAM_LENGTH NUL) \<subseteq> S" using assms(2) by auto
    from write_run_chars [OF Suc this] show ?case by simp
  qed
  then show ?thesis by (simp add: cleared_def)
qed

lemma fill_chars:
  assumes "\<forall>row \<in> set a. set row \<subseteq> S" "NUL \<in> S" "p < MAX_PARAMS"
    "\<forall>t \<in> set (take (MAX_PARAMS - p) ts).
       set (take (MAX_PARAM_LENGTH + 1) t) \<subseteq> S \<and> tolower ` set (take (MAX_PARAM_LENGTH + 1) t) \<subseteq> S"
    "fill a p n ts rest = Some (a', n', r, out)"
  shows "\<forall>row \<in> set a'. set row \<subseteq> S"
  using assms
proof (induction ts arbitrary: a p n)
  case Nil
  then show ?case by simp
next
  case (Cons t ts)
  from Cons.prems(3) obtain m where m: "MAX_PARAMS - p = Suc m"
    by (cases "MAX_PARAMS - p") auto
  with Cons.prems(4) have t: "set (take (MAX_PARAM_LENGTH + 1) (stored p t)) \<subseteq> S"
    by (auto simp: stored_def take_map)
  show ?case
  proof (cases "length t > MAX_PARAM_LENGTH")
    case True
    with Cons.prems(5) have "a' = write_run a p 0 (take (MAX_PARAM_LENGTH + 1) (stored p t))"
      by simp
    with write_run_chars [OF Cons.prems(1) t] show ?thesis by simp
  next
    case False
    then have "take (MAX_PARAM_LENGTH + 1) (stored p t) = stored p t"
      by (simp add: stored_simps)
    with t Cons.prems(2) have "set (stored p t @ [NUL]) \<subseteq> S" by simp
    from write_run_chars [OF Cons.prems(1) this]
    have a2: "\<forall>row \<in> set (write_run a p 0 (stored p t @ [NUL])). set row \<subseteq> S" .
    show ?thesis
    proof (cases "p + 1 \<ge> MAX_PARAMS")
      case True
      with False Cons.prems(5) a2 show ?thesis by simp
    next
      case more: False
      with False Cons.prems(5)
      have rec: "fill (write_run a p 0 (stored p t @ [NUL])) (p + 1) (n + 1) ts rest
                   = Some (a', n', r, out)"
        by simp
      from m have "MAX_PARAMS - (p + 1) = m" by simp
      with m Cons.prems(4)
      have "\<forall>t \<in> set (take (MAX_PARAMS - (p + 1)) ts).
              set (take (MAX_PARAM_LENGTH + 1) t) \<subseteq> S
              \<and> tolower ` set (take (MAX_PARAM_LENGTH + 1) t) \<subseteq> S"
        by simp
      from Cons.IH [OF a2 Cons.prems(2) _ this rec] more show ?thesis by simp
    qed
  qed
qed

lemma parse_chars:
  assumes "allocated a" "NL \<notin> set l" "stdin w = l @ NL # rest"
    "\<forall>row \<in> set a. set row \<subseteq> S" "NUL \<in> S"
    "\<forall>t \<in> set (take MAX_PARAMS (tokens_of l)).
       set (take (MAX_PARAM_LENGTH + 1) t) \<subseteq> S \<and> tolower ` set (take (MAX_PARAM_LENGTH + 1) t) \<subseteq> S"
    "parse a w = Some (a', n, w')"
  shows "\<forall>row \<in> set a'. set row \<subseteq> S"
proof -
  from assms(7) parse_line [OF assms(1-3)] obtain r out where
    f: "fill (cleared a) 0 0 (tokens_of l) rest = Some (a', n, r, out)"
    by (auto split: option.splits)
  from fill_chars [OF cleared_chars [OF assms(4,5)] assms(5) _ _ f] assms(6)
  show ?thesis by (simp add: MAX_PARAMS_def)
qed

lemma buf0_chars: "\<forall>row \<in> set buf0. set row \<subseteq> - {TAB}"
  by (simp add: buf0_def MAX_PARAMS_def MAX_PARAM_LENGTH_def)

lemma tokens_tab_samples:
  "tokens_of (''a b c d e'' @ [TAB] @ ''f'')
     = [''a'', ''b'', ''c'', ''d'', [CHR ''e'', TAB, CHR ''f'']]"
  "tokens_of (replicate 101 CHR ''a'' @ [TAB]) = [replicate 101 CHR ''a'' @ [TAB]]"
  using tokens_of_token [of "replicate 101 CHR ''a'' @ [TAB]" "[]"]
  by (simp_all add: is_token_def)

subsection \<open>No write outside the array\<close>

text \<open>
  Claim C9. On an array allocated as in \<open>main\<close> (\<open>MAX_PARAMS\<close> rows of
  \<open>MAX_PARAM_LENGTH + 1\<close> characters) a write \<open>a[i][j] = v\<close> fails exactly when
  \<open>i\<close> is not below \<open>MAX_PARAMS\<close> or \<open>j\<close> is above \<open>MAX_PARAM_LENGTH\<close>, and
  \<open>parse\<close> never fails, whatever standard input holds (with or without a newline):
  all its writes, of token characters, of terminating nulls and of the clearing loops,
  hit slots 0 to \<open>MAX_PARAMS - 1\<close> at indices 0 to \<open>MAX_PARAM_LENGTH\<close>. The array it
  returns has the same shape.
\<close>

theorem parse_writes_in_bounds:
  assumes "allocated a"
  shows "(\<forall>i j v. store a i j v = None \<longleftrightarrow> \<not> (i < MAX_PARAMS \<and> j \<le> MAX_PARAM_LENGTH))
       \<and> (\<exists>a' len w'. parse a w = Some (a', len, w') \<and> allocated a')"
proof
  from assms show "\<forall>i j v. store a i j v = None \<longleftrightarrow> \<not> (i < MAX_PARAMS \<and> j \<le> MAX_PARAM_LENGTH)"
    by (auto simp: store_def allocated_def)
  from parse_total [OF assms]
  show "\<exists>a' len w'. parse a w = Some (a', len, w') \<and> allocated a'" .
qed

theorem parse_writes_in_bounds_witness:
  "allocated buf0
   \<and> (\<exists>a' len w'. parse buf0 (world0\<lparr>stdin := ''run ./prog''\<rparr>) = Some (a', len, w') \<and> allocated a')"
  using parse_writes_in_bounds [OF buf0_allocated, of "world0\<lparr>stdin := ''run ./prog''\<rparr>"]
    buf0_allocated by blast


section \<open>The claims about the tokenizer\<close>

subsection \<open>A token longer than the limit\<close>

text \<open>
  Claim C1, as the code has it. Let token \<open>k\<close> of the line (counted from 0, the
  command name being token 0) be the first one longer than \<open>MAX_PARAM_LENGTH\<close>, and
  let it be among the first \<open>MAX_PARAMS\<close> tokens. Then \<open>parse\<close> gives up on the line:
  the count is -1, the rest of the line up to and including its newline is consumed, so
  the next read starts after it, and the one thing printed is "Parameter \<open>k\<close> exceeds
  maximum allowed characters: 100." The number printed is \<open>paramCount\<close>, the position
  counted from 0.
\<close>

theorem long_token_aborts_line:
  assumes "allocated a" and "NL \<notin> set l" and "stdin w = l @ NL # rest"
    and "k < length (tokens_of l)" and "k < MAX_PARAMS"
    and "length (tokens_of l ! k) > MAX_PARAM_LENGTH"
    and "\<forall>t \<in> set (take k (tokens_of l)). length t \<le> MAX_PARAM_LENGTH"
  shows "\<exists>a'. parse a w =
           Some (a', - 1,
                 w\<lparr>stdin := rest,
                   stdout := stdout w @ ''Parameter '' @ show_int (int k)
                               @ '' exceeds maximum allowed characters: 100.'' @ [NL]\<rparr>)"
  using parse_long [OF assms] by (simp add: too_long_msg_def show_limit)

theorem long_token_aborts_line_witness:
  "allocated buf0
   \<and> tokens_of (''copy '' @ replicate 101 CHR ''x'' @ '' out'')
       = [''copy'', replicate 101 CHR ''x'', ''out'']
   \<and> (\<exists>a'. parse buf0 (world0\<lparr>stdin := (''copy '' @ replicate 101 CHR ''x'' @ '' out'') @ NL # ''help''\<rparr>)
         = Some (a', - 1,
                 world0\<lparr>stdin := ''help'',
                        stdout := ''Parameter 1 exceeds maximum allowed characters: 100.'' @ [NL]\<rparr>))"
proof -
  let ?l = "''copy '' @ replicate 101 CHR ''x'' @ '' out''"
  let ?w = "world0\<lparr>stdin := ?l @ NL # ''help''\<rparr>"
  have h2: "NL \<notin> set ?l" by simp
  have h3: "stdin ?w = ?l @ NL # ''help''" by simp
  have h4: "1 < length (tokens_of ?l)" by (simp add: tokens_of_replicate)
  have h5: "1 < MAX_PARAMS" by (simp add: MAX_PARAMS_def)
  have h6: "length (tokens_of ?l ! 1) > MAX_PARAM_LENGTH"
    by (simp add: tokens_of_replicate MAX_PARAM_LENGTH_def)
  have h7: "\<forall>t \<in> set (take 1 (tokens_of ?l)). length t \<le> MAX_PARAM_LENGTH"
    by (simp add: tokens_of_replicate MAX_PARAM_LENGTH_def)
  from long_token_aborts_line [OF buf0_allocated h2 h3 h4 h5 h6 h7]
  show ?thesis using buf0_allocated
    by (simp add: tokens_of_replicate show_small world0_def)
qed

text \<open>
  The claim as first stated fails in two ways. A first token of 101 characters is
  reported as parameter 0, not 1; and a line whose fifth token has 101 characters is
  accepted with count 4 and nothing printed, since input after the fourth token is
  dropped unread.
\<close>

theorem long_token_position_counterexample:
  "map_option (\<lambda>(a', n, w'). (n, stdout w'))
     (parse buf0 (world0\<lparr>stdin := replicate 101 CHR ''a'' @ [NL]\<rparr>))
     = Some (- 1, ''Parameter 0 exceeds maximum allowed characters: 100.'' @ [NL])
   \<and> map_option (\<lambda>(a', n, w'). (n, stdout w'))
     (parse buf0 (world0\<lparr>stdin := ''l a b c '' @ replicate 101 CHR ''x'' @ [NL]\<rparr>))
     = Some (4, [])"
proof -
  let ?w1 = "world0\<lparr>stdin := replicate 101 CHR ''a'' @ [NL]\<rparr>"
  have "\<exists>a'. parse buf0 ?w1 = Some (a', - 1, ?w1\<lparr>stdin := [], stdout := stdout ?w1 @ too_long_msg 0\<rparr>)"
    by (rule parse_long [OF buf0_allocated, of "replicate 101 CHR ''a''"])
      (simp_all add: tokens_of_replicate MAX_PARAMS_def MAX_PARAM_LENGTH_def)
  then have a: "map_option (\<lambda>(a', n, w'). (n, stdout w')) (parse buf0 ?w1)
     = Some (- 1, ''Parameter 0 exceeds maximum allowed characters: 100.'' @ [NL])"
    by (auto simp: too_long_msg_def show_limit show_small world0_def)
  let ?l2 = "''l a b c '' @ replicate 101 CHR ''x''"
  let ?w2 = "world0\<lparr>stdin := ?l2 @ [NL]\<rparr>"
  have "\<exists>a'. parse buf0 ?w2 = Some (a', int (min (length (tokens_of ?l2)) MAX_PARAMS), ?w2\<lparr>stdin := []\<rparr>)
          \<and> (\<forall>i < min (length (tokens_of ?l2)) MAX_PARAMS.
                 take (length (tokens_of ?l2 ! i) + 1) (a' ! i) = stored i (tokens_of ?l2 ! i) @ [NUL])"
    by (rule parse_fit [OF buf0_allocated])
      (simp_all add: tokens_of_replicate MAX_PARAMS_def MAX_PARAM_LENGTH_def)
  then have b: "map_option (\<lambda>(a', n, w'). (n, stdout w')) (parse buf0 ?w2) = Some (4, [])"
    by (auto simp: tokens_of_replicate MAX_PARAMS_def world0_def)
  from a b show ?thesis by simp
qed

subsection \<open>The boundary of the length limit\<close>

text \<open>
  Claim C2, as the code has it. Let token \<open>k\<close> be among the first \<open>MAX_PARAMS\<close>
  tokens of the line. If it has exactly \<open>MAX_PARAM_LENGTH\<close> characters and none of the
  first \<open>MAX_PARAMS\<close> tokens is longer, the line is accepted: the count is the number of
  tokens kept, nothing is printed, and slot \<open>k\<close> holds the whole token and its
  terminating null. If it has \<open>MAX_PARAM_LENGTH + 1\<close> characters, \<open>parse\<close> returns
  count -1 and the turn of the main loop ends there: the world afterwards differs from
  the one before only in the input consumed and in the output, which is the prompt and
  the diagnostic of \<open>parse\<close>; the trace is unchanged, so no lookup took place, and no
  unrecognized-command message was printed.
\<close>

theorem length_limit_boundary:
  assumes "allocated a" and "NL \<notin> set l" and "stdin w = l @ NL # rest"
    and "k < length (tokens_of l)" and "k < MAX_PARAMS"
  shows "(length (tokens_of l ! k) = MAX_PARAM_LENGTH
          \<and> (\<forall>t \<in> set (take MAX_PARAMS (tokens_of l)). length t \<le> MAX_PARAM_LENGTH) \<longrightarrow>
            (\<exists>a'. parse a w
                     = Some (a', int (min (length (tokens_of l)) MAX_PARAMS), w\<lparr>stdin := rest\<rparr>)
                 \<and> take (MAX_PARAM_LENGTH + 1) (a' ! k)
                     = (if k = 0 then map tolower (tokens_of l ! k) else tokens_of l ! k) @ [NUL]))
       \<and> (length (tokens_of l ! k) = MAX_PARAM_LENGTH + 1 \<longrightarrow>
            (\<exists>a' j. j \<le> k
                 \<and> parse a (cout PROMPT w)
                     = Some (a', - 1, w\<lparr>stdin := rest, stdout := stdout w @ PROMPT @ too_long_msg j\<rparr>)
                 \<and> main_iter a w
                     = Some (a', Running,
                             w\<lparr>stdin := rest, stdout := stdout w @ PROMPT @ too_long_msg j\<rparr>)))"
proof (intro conjI impI)
  assume h: "length (tokens_of l ! k) = MAX_PARAM_LENGTH
          \<and> (\<forall>t \<in> set (take MAX_PARAMS (tokens_of l)). length t \<le> MAX_PARAM_LENGTH)"
  then have fits: "\<forall>t \<in> set (take MAX_PARAMS (tokens_of l)). length t \<le> MAX_PARAM_LENGTH"
    and len: "length (tokens_of l ! k) = MAX_PARAM_LENGTH"
    by simp_all
  from parse_fit [OF assms(1-3) fits] obtain a' where
    p: "parse a w = Some (a', int (min (length (tokens_of l)) MAX_PARAMS), w\<lparr>stdin := rest\<rparr>)"
    and s: "\<forall>i < min (length (tokens_of l)) MAX_PARAMS.
                 take (length (tokens_of l ! i) + 1) (a' ! i) = stored i (tokens_of l ! i) @ [NUL]"
    by blast
  from s assms(4,5) len
  have "take (MAX_PARAM_LENGTH + 1) (a' ! k)
          = (if k = 0 then map tolower (tokens_of l ! k) else tokens_of l ! k) @ [NUL]"
    by (auto simp: stored_def)
  with p show "\<exists>a'. parse a w
                     = Some (a', int (min (length (tokens_of l)) MAX_PARAMS), w\<lparr>stdin := rest\<rparr>)
                 \<and> take (MAX_PARAM_LENGTH + 1) (a' ! k)
                     = (if k = 0 then map tolower (tokens_of l ! k) else tokens_of l ! k) @ [NUL]"
    by blast
next
  assume "length (tokens_of l ! k) = MAX_PARAM_LENGTH + 1"
  then have long: "length (tokens_of l ! k) > MAX_PARAM_LENGTH" by simp
  have "stdin (cout PROMPT w) = l @ NL # rest"
    using assms(3) by (simp add: cout_def)
  from parse_long_any [OF assms(1,2) this assms(4,5) long] obtain a' j where
    j: "j \<le> k" and
    p: "parse a (cout PROMPT w)
          = Some (a', - 1, w\<lparr>stdin := rest, stdout := stdout w @ PROMPT @ too_long_msg j\<rparr>)"
    by (auto simp: cout_def)
  then have "main_iter a w
      = Some (a', Running, w\<lparr>stdin := rest, stdout := stdout w @ PROMPT @ too_long_msg j\<rparr>)"
    by (simp add: main_iter_def)
  with j p show "\<exists>a' j. j \<le> k
                 \<and> parse a (cout PROMPT w)
                     = Some (a', - 1, w\<lparr>stdin := rest, stdout := stdout w @ PROMPT @ too_long_msg j\<rparr>)
                 \<and> main_iter a w
                     = Some (a', Running,
                             w\<lparr>stdin := rest, stdout := stdout w @ PROMPT @ too_long_msg j\<rparr>)"
    by blast
qed

theorem length_limit_boundary_witness:
  "allocated buf0
   \<and> tokens_of (''run '' @ replicate 100 CHR ''p'') = [''run'', replicate 100 CHR ''p'']
   \<and> (\<exists>a'. parse buf0 (world0\<lparr>stdin := (''run '' @ replicate 100 CHR ''p'') @ NL # ''help''\<rparr>)
               = Some (a', 2, world0\<lparr>stdin := ''help''\<rparr>)
           \<and> take 101 (a' ! 1) = replicate 100 CHR ''p'' @ [NUL])
   \<and> tokens_of (''run '' @ replicate 101 CHR ''p'') = [''run'', replicate 101 CHR ''p'']
   \<and> (\<exists>a' j. j \<le> 1
           \<and> main_iter buf0 (world0\<lparr>stdin := (''run '' @ replicate 101 CHR ''p'') @ NL # ''help''\<rparr>)
               = Some (a', Running,
                       world0\<lparr>stdin := ''help'', stdout := PROMPT @ too_long_msg j\<rparr>))"
proof -
  let ?l = "''run '' @ replicate 100 CHR ''p''"
  let ?w = "world0\<lparr>stdin := ?l @ NL # ''help''\<rparr>"
  let ?m = "''run '' @ replicate 101 CHR ''p''"
  let ?v = "world0\<lparr>stdin := ?m @ NL # ''help''\<rparr>"
  have tl: "tokens_of ?l = [''run'', replicate 100 CHR ''p'']"
    and tm: "tokens_of ?m = [''run'', replicate 101 CHR ''p'']"
    by (simp_all add: tokens_of_replicate)
  have l2: "NL \<notin> set ?l" and m2: "NL \<notin> set ?m" by simp_all
  have l3: "stdin ?w = ?l @ NL # ''help''" and m3: "stdin ?v = ?m @ NL # ''help''" by simp_all
  have l4: "1 < length (tokens_of ?l)" and m4: "1 < length (tokens_of ?m)"
    by (simp_all add: tokens_of_replicate)
  have k: "1 < MAX_PARAMS" by (simp add: MAX_PARAMS_def)
  have la: "length (tokens_of ?l ! 1) = MAX_PARAM_LENGTH
          \<and> (\<forall>t \<in> set (take MAX_PARAMS (tokens_of ?l)). length t \<le> MAX_PARAM_LENGTH)"
    by (simp add: tokens_of_replicate MAX_PARAMS_def MAX_PARAM_LENGTH_def)
  have mb: "length (tokens_of ?m ! 1) = MAX_PARAM_LENGTH + 1"
    by (simp add: tokens_of_replicate MAX_PARAM_LENGTH_def)
  from length_limit_boundary [OF buf0_allocated l2 l3 l4 k] la
  have a: "\<exists>a'. parse buf0 ?w = Some (a', 2, world0\<lparr>stdin := ''help''\<rparr>)
           \<and> take 101 (a' ! 1) = replicate 100 CHR ''p'' @ [NUL]"
    unfolding tl by (simp add: MAX_PARAMS_def MAX_PARAM_LENGTH_def)
  from length_limit_boundary [OF buf0_allocated m2 m3 m4 k] mb
  have b: "\<exists>a' j. j \<le> 1 \<and> main_iter buf0 ?v
               = Some (a', Running, world0\<lparr>stdin := ''help'', stdout := PROMPT @ too_long_msg j\<rparr>)"
    by (auto simp: world0_def)
  from a b tl tm buf0_allocated show ?thesis by blast
qed

text \<open>
  Without the restriction to the first \<open>MAX_PARAMS\<close> tokens the claim fails: with a
  fifth token of 101 characters the line is accepted, the command name is looked up and
  the unrecognized-command message is printed.
\<close>

theorem length_limit_boundary_counterexample:
  "map_option (\<lambda>(a', st, w'). (st, trace w', stdout w'))
     (main_iter buf0 (world0\<lparr>stdin := (''a b c d '' @ replicate 101 CHR ''x'') @ [NL]\<rparr>))
   = Some (Running, [Lookup ''a''],
           PROMPT @ ''Unrecognized command: '' @ [DQ] @ ''a'' @ [DQ] @ ''.'' @ [NL]
             @ ''Type '' @ [DQ] @ ''help'' @ [DQ] @ '' to view a list of valid commands.'' @ [NL])"
proof -
  let ?l = "''a b c d '' @ replicate 101 CHR ''x''"
  let ?w = "cout PROMPT (world0\<lparr>stdin := ?l @ [NL]\<rparr>)"
  have tk: "tokens_of ?l = [''a'', ''b'', ''c'', ''d'', replicate 101 CHR ''x'']"
    by (simp add: tokens_of_replicate)
  have "\<exists>a'. parse buf0 ?w = Some (a', int (min (length (tokens_of ?l)) MAX_PARAMS), ?w\<lparr>stdin := []\<rparr>)
          \<and> (\<forall>i < min (length (tokens_of ?l)) MAX_PARAMS.
                 take (length (tokens_of ?l ! i) + 1) (a' ! i) = stored i (tokens_of ?l ! i) @ [NUL])"
    by (rule parse_fit [OF buf0_allocated])
      (simp_all add: tokens_of_replicate MAX_PARAMS_def MAX_PARAM_LENGTH_def cout_def)
  then obtain a' where
    p: "parse buf0 ?w = Some (a', 4, ?w\<lparr>stdin := []\<rparr>)" and
    s: "take (length ''a'' + 1) (a' ! 0) = stored 0 ''a'' @ [NUL]"
    unfolding tk by (auto simp: MAX_PARAMS_def)
  from s have "take (length ''a'' + 1) (a' ! 0) = ''a'' @ [NUL]"
    by (simp add: stored_def tolower_chars)
  then have c: "cstr (a' ! 0) = ''a''"
    by (rule cstr_take) simp
  from p c show ?thesis
    by (simp add: main_iter_def cmdFunctions_a emit_def cout_def world0_def)
qed

subsection \<open>More tokens than slots\<close>

text \<open>
  Claim C3, as the code has it. Let the line hold more than \<open>MAX_PARAMS\<close> tokens, the
  first \<open>MAX_PARAMS\<close> of them no longer than \<open>MAX_PARAM_LENGTH\<close>. Then \<open>parse\<close>
  returns count \<open>MAX_PARAMS\<close>, prints nothing, leaves on standard input exactly what
  follows the line's newline, and slot \<open>i\<close> holds token \<open>i\<close> (the first in lower
  case) and its terminating null, for each of the first \<open>MAX_PARAMS\<close> tokens in order.
\<close>

theorem more_tokens_than_slots:
  assumes "allocated a" and "NL \<notin> set l" and "stdin w = l @ NL # rest"
    and "length (tokens_of l) > MAX_PARAMS"
    and "\<forall>t \<in> set (take MAX_PARAMS (tokens_of l)). length t \<le> MAX_PARAM_LENGTH"
  shows "\<exists>a'. parse a w = Some (a', int MAX_PARAMS, w\<lparr>stdin := rest\<rparr>)
           \<and> (\<forall>i < MAX_PARAMS.
                 take (length (tokens_of l ! i) + 1) (a' ! i)
                   = (if i = 0 then map tolower (tokens_of l ! i) else tokens_of l ! i) @ [NUL])"
proof -
  from assms(4) have m: "min (length (tokens_of l)) MAX_PARAMS = MAX_PARAMS" by simp
  from parse_fit [OF assms(1-3) assms(5)] show ?thesis
    unfolding m by (simp add: stored_def)
qed

theorem more_tokens_than_slots_witness:
  "allocated buf0
   \<and> tokens_of ''copy a b c d e'' = [''copy'', ''a'', ''b'', ''c'', ''d'', ''e'']
   \<and> (\<exists>a'. parse buf0 (world0\<lparr>stdin := ''copy a b c d e'' @ NL # ''help''\<rparr>)
               = Some (a', 4, world0\<lparr>stdin := ''help''\<rparr>)
           \<and> take 5 (a' ! 0) = ''copy'' @ [NUL]
           \<and> take 2 (a' ! 3) = ''c'' @ [NUL])"
proof -
  let ?l = "''copy a b c d e''"
  let ?w = "world0\<lparr>stdin := ?l @ NL # ''help''\<rparr>"
  have tk: "tokens_of ?l = [''copy'', ''a'', ''b'', ''c'', ''d'', ''e'']" by simp
  have h2: "NL \<notin> set ?l" by simp
  have h3: "stdin ?w = ?l @ NL # ''help''" by simp
  have h4: "length (tokens_of ?l) > MAX_PARAMS" by (simp add: MAX_PARAMS_def)
  have h5: "\<forall>t \<in> set (take MAX_PARAMS (tokens_of ?l)). length t \<le> MAX_PARAM_LENGTH"
    by (simp add: MAX_PARAMS_def MAX_PARAM_LENGTH_def)
  from more_tokens_than_slots [OF buf0_allocated h2 h3 h4 h5] obtain a' where
    p: "parse buf0 ?w = Some (a', int MAX_PARAMS, ?w\<lparr>stdin := ''help''\<rparr>)" and
    s: "\<And>i. i < MAX_PARAMS \<Longrightarrow> take (length (tokens_of ?l ! i) + 1) (a' ! i)
                   = (if i = 0 then map tolower (tokens_of ?l ! i) else tokens_of ?l ! i) @ [NUL]"
    by blast
  from s [of 0] have s0: "take 5 (a' ! 0) = ''copy'' @ [NUL]"
    unfolding tk by (simp add: MAX_PARAMS_def tolower_chars eval_nat_numeral)
  from s [of 3] have s3: "take 2 (a' ! 3) = ''c'' @ [NUL]"
    unfolding tk by (simp add: MAX_PARAMS_def eval_nat_numeral)
  from p s0 s3 buf0_allocated tk show ?thesis
    by (auto simp: MAX_PARAMS_def)
qed

text \<open>
  Without the bound on the lengths the claim fails: a line of five tokens whose first
  has 101 characters gives count -1.
\<close>

theorem more_tokens_than_slots_counterexample:
  "length (tokens_of (replicate 101 CHR ''a'' @ '' b c d e'')) = 5
   \<and> map_option (\<lambda>(a', n, w'). n)
       (parse buf0 (world0\<lparr>stdin := (replicate 101 CHR ''a'' @ '' b c d e'') @ [NL]\<rparr>))
     = Some (- 1)"
proof -
  let ?l = "replicate 101 CHR ''a'' @ '' b c d e''"
  let ?w = "world0\<lparr>stdin := ?l @ [NL]\<rparr>"
  have "\<exists>a'. parse buf0 ?w = Some (a', - 1, ?w\<lparr>stdin := [], stdout := stdout ?w @ too_long_msg 0\<rparr>)"
    by (rule parse_long [OF buf0_allocated, of ?l])
      (simp_all add: tokens_of_replicate MAX_PARAMS_def MAX_PARAM_LENGTH_def)
  then show ?thesis by (auto simp: tokens_of_replicate)
qed

subsection \<open>The amount of white space does not matter\<close>

text \<open>
  Claim C7. Take any tokens (non-empty strings without space or newline) and any two
  lines that hold them, each with its own number of leading spaces, of spaces between
  neighbours (at least one) and of trailing spaces. \<open>parse\<close> returns the same array,
  the same count and the same output for both, and has consumed each line with its
  newline. The count is -1 or the number of tokens capped at \<open>MAX_PARAMS\<close>: a run of
  spaces never counts as a token.
\<close>

theorem spacing_is_irrelevant:
  assumes "allocated a" and "\<forall>t \<in> set ts. is_token t"
  shows "\<exists>a' n out.
           parse a (w\<lparr>stdin := line_of lead1 gaps1 trail1 ts @ NL # rest1\<rparr>)
             = Some (a', n, w\<lparr>stdin := rest1, stdout := stdout w @ out\<rparr>)
         \<and> parse a (w\<lparr>stdin := line_of lead2 gaps2 trail2 ts @ NL # rest2\<rparr>)
             = Some (a', n, w\<lparr>stdin := rest2, stdout := stdout w @ out\<rparr>)
         \<and> (n = - 1 \<or> n = int (min (length ts) MAX_PARAMS))"
proof -
  from fill_any_rest [of "cleared a" 0 0 ts] obtain a' n' out where
    f: "\<And>rest. fill (cleared a) 0 0 ts rest = Some (a', n', rest, out)"
    by blast
  have "parse a (w\<lparr>stdin := line_of lead gaps trail ts @ NL # rest\<rparr>)
      = Some (a', n', w\<lparr>stdin := rest, stdout := stdout w @ out\<rparr>)" for lead gaps trail rest
    using parse_line [OF assms(1) NL_line_of [OF assms(2)],
        of "w\<lparr>stdin := line_of lead gaps trail ts @ NL # rest\<rparr>" lead gaps trail rest]
    by (simp add: tokens_of_line_of [OF assms(2)] f cout_def)
  moreover from fill_count [OF _ f [of "[]"]]
  have "n' = - 1 \<or> n' = int (min (length ts) MAX_PARAMS)"
    by (simp add: MAX_PARAMS_def)
  ultimately show ?thesis by blast
qed

theorem spacing_is_irrelevant_witness:
  "allocated buf0 \<and> is_token ''list'' \<and> is_token ''.''
   \<and> (\<exists>a' n out.
         parse buf0 (world0\<lparr>stdin := ''   list    .  '' @ NL # ''help''\<rparr>)
           = Some (a', n, world0\<lparr>stdin := ''help'', stdout := stdout world0 @ out\<rparr>)
       \<and> parse buf0 (world0\<lparr>stdin := ''list .'' @ NL # ''quit''\<rparr>)
           = Some (a', n, world0\<lparr>stdin := ''quit'', stdout := stdout world0 @ out\<rparr>)
       \<and> (n = - 1 \<or> n = int (min (length [''list'', ''.'']) MAX_PARAMS)))"
proof -
  have t: "\<forall>t \<in> set [''list'', ''.'']. is_token t"
    by (simp add: is_token_def)
  from spacing_is_irrelevant [OF buf0_allocated t, where w = world0 and ?lead1.0 = 3
      and ?gaps1.0 = "[3]" and ?trail1.0 = 2 and ?rest1.0 = "''help''" and ?lead2.0 = 0
      and ?gaps2.0 = "[0]" and ?trail2.0 = 0 and ?rest2.0 = "''quit''"]
  show ?thesis using buf0_allocated t by (simp add: line_eval)
qed

subsection \<open>Only the space separates tokens\<close>

text \<open>
  Claim C10, as the code has it. \<open>tokens_of\<close> cuts a line at spaces only, so that its
  tokens, put together, are the line without its spaces. Whatever the line, \<open>parse\<close>
  returns, and for every token \<open>i\<close> among the first \<open>MAX_PARAMS\<close> with no longer
  token before it: if the token has at most \<open>MAX_PARAM_LENGTH\<close> characters, slot \<open>i\<close>
  holds it character by character, a tab like any other character, followed by the
  terminating null; if it is longer, slot \<open>i\<close> holds its first
  \<open>MAX_PARAM_LENGTH + 1\<close> characters. Only token 0 is put in lower case.
\<close>

theorem only_space_delimits:
  assumes "allocated a" and "NL \<notin> set l" and "stdin w = l @ NL # rest"
  shows "concat (tokens_of l) = filter (\<lambda>c. c \<noteq> SP) l
       \<and> (\<exists>a' n w'. parse a w = Some (a', n, w')
             \<and> (\<forall>i. i < length (tokens_of l) \<and> i < MAX_PARAMS
                      \<and> (\<forall>t \<in> set (take (Suc i) (tokens_of l)). length t \<le> MAX_PARAM_LENGTH) \<longrightarrow>
                    take (length (tokens_of l ! i) + 1) (a' ! i)
                      = (if i = 0 then map tolower (tokens_of l ! i) else tokens_of l ! i) @ [NUL])
             \<and> (\<forall>i. i < length (tokens_of l) \<and> i < MAX_PARAMS
                      \<and> (\<forall>t \<in> set (take i (tokens_of l)). length t \<le> MAX_PARAM_LENGTH)
                      \<and> length (tokens_of l ! i) > MAX_PARAM_LENGTH \<longrightarrow>
                    a' ! i = take (MAX_PARAM_LENGTH + 1)
                               (if i = 0 then map tolower (tokens_of l ! i) else tokens_of l ! i)))"
proof
  show "concat (tokens_of l) = filter (\<lambda>c. c \<noteq> SP) l"
    by (rule concat_tokens_of)
  from parse_line [OF assms] fill_rest [of "cleared a" 0 0 "tokens_of l" rest]
  obtain a' n w' where p: "parse a w = Some (a', n, w')"
    by auto
  have s: "take (length (tokens_of l ! i) + 1) (a' ! i)
          = (if i = 0 then map tolower (tokens_of l ! i) else tokens_of l ! i) @ [NUL]"
    if "i < length (tokens_of l) \<and> i < MAX_PARAMS
          \<and> (\<forall>t \<in> set (take (Suc i) (tokens_of l)). length t \<le> MAX_PARAM_LENGTH)" for i
    using parse_slot [OF assms _ _ _ p, of i] that by (simp add: stored_def)
  have t: "a' ! i = take (MAX_PARAM_LENGTH + 1)
                      (if i = 0 then map tolower (tokens_of l ! i) else tokens_of l ! i)"
    if "i < length (tokens_of l) \<and> i < MAX_PARAMS
          \<and> (\<forall>t \<in> set (take i (tokens_of l)). length t \<le> MAX_PARAM_LENGTH)
          \<and> length (tokens_of l ! i) > MAX_PARAM_LENGTH" for i
    using parse_slot_long [OF assms _ _ _ _ p, of i] that by (simp add: stored_def)
  from p s t
  show "\<exists>a' n w'. parse a w = Some (a', n, w')
             \<and> (\<forall>i. i < length (tokens_of l) \<and> i < MAX_PARAMS
                      \<and> (\<forall>t \<in> set (take (Suc i) (tokens_of l)). length t \<le> MAX_PARAM_LENGTH) \<longrightarrow>
                    take (length (tokens_of l ! i) + 1) (a' ! i)
                      = (if i = 0 then map tolower (tokens_of l ! i) else tokens_of l ! i) @ [NUL])
             \<and> (\<forall>i. i < length (tokens_of l) \<and> i < MAX_PARAMS
                      \<and> (\<forall>t \<in> set (take i (tokens_of l)). length t \<le> MAX_PARAM_LENGTH)
                      \<and> length (tokens_of l ! i) > MAX_PARAM_LENGTH \<longrightarrow>
                    a' ! i = take (MAX_PARAM_LENGTH + 1)
                               (if i = 0 then map tolower (tokens_of l ! i) else tokens_of l ! i))"
    by blast
qed

theorem only_space_delimits_witness:
  "allocated buf0
   \<and> tokens_of ([CHR ''L'', CHR ''S'', TAB, CHR ''-'', CHR ''L'', SP, SP, CHR ''A'', TAB, CHR ''b''])
       = [[CHR ''L'', CHR ''S'', TAB, CHR ''-'', CHR ''L''], [CHR ''A'', TAB, CHR ''b'']]
   \<and> (\<exists>a' n w'.
         parse buf0 (world0\<lparr>stdin := [CHR ''L'', CHR ''S'', TAB, CHR ''-'', CHR ''L'', SP, SP,
                                      CHR ''A'', TAB, CHR ''b''] @ [NL]\<rparr>)
           = Some (a', n, w')
         \<and> take 6 (a' ! 0) = [CHR ''l'', CHR ''s'', TAB, CHR ''-'', CHR ''l'', NUL]
         \<and> take 4 (a' ! 1) = [CHR ''A'', TAB, CHR ''b'', NUL])
   \<and> (\<exists>a' n w'.
         parse buf0 (world0\<lparr>stdin := (replicate 101 CHR ''a'' @ [TAB]) @ [NL]\<rparr>) = Some (a', n, w')
         \<and> a' ! 0 = replicate 101 CHR ''a'')"
proof -
  let ?l = "[CHR ''L'', CHR ''S'', TAB, CHR ''-'', CHR ''L'', SP, SP, CHR ''A'', TAB, CHR ''b'']"
  let ?w = "world0\<lparr>stdin := ?l @ [NL]\<rparr>"
  have tk: "tokens_of ?l = [[CHR ''L'', CHR ''S'', TAB, CHR ''-'', CHR ''L''], [CHR ''A'', TAB, CHR ''b'']]"
    by simp
  have h2: "NL \<notin> set ?l" by simp
  have h3: "stdin ?w = ?l @ NL # []" by simp
  from only_space_delimits [OF buf0_allocated h2 h3] obtain a' n w' where
    p: "parse buf0 ?w = Some (a', n, w')" and
    s: "\<And>i. i < length (tokens_of ?l) \<and> i < MAX_PARAMS
              \<and> (\<forall>t \<in> set (take (Suc i) (tokens_of ?l)). length t \<le> MAX_PARAM_LENGTH) \<Longrightarrow>
            take (length (tokens_of ?l ! i) + 1) (a' ! i)
              = (if i = 0 then map tolower (tokens_of ?l ! i) else tokens_of ?l ! i) @ [NUL]"
    by blast
  have s0: "take 6 (a' ! 0) = [CHR ''l'', CHR ''s'', TAB, CHR ''-'', CHR ''l'', NUL]"
    using s [of 0] unfolding tk
    by (simp add: MAX_PARAMS_def MAX_PARAM_LENGTH_def tolower_chars eval_nat_numeral)
  have s1: "take 4 (a' ! 1) = [CHR ''A'', TAB, CHR ''b'', NUL]"
    using s [of 1] unfolding tk
    by (simp add: MAX_PARAMS_def MAX_PARAM_LENGTH_def eval_nat_numeral)
  let ?m = "replicate 101 CHR ''a'' @ [TAB]"
  let ?v = "world0\<lparr>stdin := ?m @ [NL]\<rparr>"
  have m2: "NL \<notin> set ?m" by simp
  have m3: "stdin ?v = ?m @ NL # []" by simp
  from only_space_delimits [OF buf0_allocated m2 m3] obtain b' k v' where
    q: "parse buf0 ?v = Some (b', k, v')" and
    t: "\<And>i. i < length (tokens_of ?m) \<and> i < MAX_PARAMS
              \<and> (\<forall>t \<in> set (take i (tokens_of ?m)). length t \<le> MAX_PARAM_LENGTH)
              \<and> length (tokens_of ?m ! i) > MAX_PARAM_LENGTH \<Longrightarrow>
            b' ! i = take (MAX_PARAM_LENGTH + 1)
                       (if i = 0 then map tolower (tokens_of ?m ! i) else tokens_of ?m ! i)"
    by blast
  have t0: "b' ! 0 = replicate 101 CHR ''a''"
    using t [of 0] unfolding tokens_tab_samples
    by (simp add: MAX_PARAMS_def MAX_PARAM_LENGTH_def tolower_chars)
  from p s0 s1 q t0 tk buf0_allocated show ?thesis by blast
qed

text \<open>
  Without the limits the claim fails: a character is stored only while the array has
  room for it. A tab in the fifth token of a line, and a tab that is the 102nd character
  of a token, are in no row of the array \<open>parse\<close> returns.
\<close>

theorem only_space_delimits_counterexample:
  "(\<exists>a'. parse buf0 (world0\<lparr>stdin := (''a b c d e'' @ [TAB] @ ''f'') @ [NL]\<rparr>)
             = Some (a', 4, world0\<lparr>stdin := []\<rparr>)
         \<and> (\<forall>row \<in> set a'. TAB \<notin> set row))
   \<and> (\<exists>a'. parse buf0 (world0\<lparr>stdin := (replicate 101 CHR ''a'' @ [TAB]) @ [NL]\<rparr>)
             = Some (a', - 1,
                     world0\<lparr>stdin := [],
                            stdout := ''Parameter 0 exceeds maximum allowed characters: 100.'' @ [NL]\<rparr>)
         \<and> (\<forall>row \<in> set a'. TAB \<notin> set row))"
proof
  let ?l = "''a b c d e'' @ [TAB] @ ''f''"
  let ?w = "world0\<lparr>stdin := ?l @ [NL]\<rparr>"
  have "\<exists>a'. parse buf0 ?w = Some (a', int (min (length (tokens_of ?l)) MAX_PARAMS), ?w\<lparr>stdin := []\<rparr>)
          \<and> (\<forall>i < min (length (tokens_of ?l)) MAX_PARAMS.
                 take (length (tokens_of ?l ! i) + 1) (a' ! i) = stored i (tokens_of ?l ! i) @ [NUL])"
    by (rule parse_fit [OF buf0_allocated])
      (simp_all add: MAX_PARAMS_def MAX_PARAM_LENGTH_def)
  then obtain a' where p: "parse buf0 ?w = Some (a', 4, world0\<lparr>stdin := []\<rparr>)"
    by (auto simp: MAX_PARAMS_def)
  have "\<forall>row \<in> set a'. set row \<subseteq> - {TAB}"
    by (rule parse_chars [OF buf0_allocated _ _ buf0_chars _ _ p, of ?l "[]"])
      (simp_all add: MAX_PARAMS_def MAX_PARAM_LENGTH_def tolower_def)
  with p show "\<exists>a'. parse buf0 ?w = Some (a', 4, world0\<lparr>stdin := []\<rparr>)
         \<and> (\<forall>row \<in> set a'. TAB \<notin> set row)"
    by auto
next
  let ?l = "replicate 101 CHR ''a'' @ [TAB]"
  let ?w = "world0\<lparr>stdin := ?l @ [NL]\<rparr>"
  have "\<exists>a'. parse buf0 ?w = Some (a', - 1, ?w\<lparr>stdin := [], stdout := stdout ?w @ too_long_msg 0\<rparr>)"
    by (rule parse_long [OF buf0_allocated, of ?l])
      (simp_all add: tokens_tab_samples MAX_PARAMS_def MAX_PARAM_LENGTH_def)
  then obtain a' where
    p: "parse buf0 ?w = Some (a', - 1, world0\<lparr>stdin := [],
          stdout := ''Parameter 0 exceeds maximum allowed characters: 100.'' @ [NL]\<rparr>)"
    by (auto simp: too_long_msg_def show_limit show_small world0_def)
  have "\<forall>row \<in> set a'. set row \<subseteq> - {TAB}"
    by (rule parse_chars [OF buf0_allocated _ _ buf0_chars _ _ p, of ?l "[]"])
      (simp_all add: tokens_tab_samples MAX_PARAMS_def MAX_PARAM_LENGTH_def tolower_def)
  with p show "\<exists>a'. parse buf0 ?w = Some (a', - 1, world0\<lparr>stdin := [],
          stdout := ''Parameter 0 exceeds maximum allowed characters: 100.'' @ [NL]\<rparr>)
         \<and> (\<forall>row \<in> set a'. TAB \<notin> set row)"
    by auto
qed

end
